theory Spec2Isabelle
  imports Main "HOL-Library.Multiset"
begin

section \<open>Python values and errors\<close>

text \<open>
  Python integers are unbounded and modelled as \<^typ>\<open>int\<close>. An exception that the
  program does not catch is the left summand of a result.
\<close>

datatype py_error = IndexError | KeyError | ValueError | BinasciiError

definition bind_err :: "py_error + 'a \<Rightarrow> ('a \<Rightarrow> py_error + 'b) \<Rightarrow> py_error + 'b" where
  "bind_err m f = (case m of Inl e \<Rightarrow> Inl e | Inr v \<Rightarrow> f v)"

text \<open>Truthiness of a Python integer: \<^verbatim>\<open>if cell:\<close>.\<close>

definition truthy :: "int \<Rightarrow> bool" where
  "truthy v = (v \<noteq> 0)"

section \<open>Configuration constants (tetris.py, CONFIG block)\<close>

definition WIDTH :: int where "WIDTH = 10"
definition HEIGHT :: int where "HEIGHT = 20"
definition GARBAGE_BUFFER_PIECES :: int where "GARBAGE_BUFFER_PIECES = 3"

section \<open>Attack calculator (calculate_garbage)\<close>

text \<open>
  Python's \<^verbatim>\<open>{k: v, ...}.get(key, default)\<close> on a literal dictionary.
\<close>

definition dict_get :: "(int \<times> int) list \<Rightarrow> int \<Rightarrow> int \<Rightarrow> int" where
  "dict_get d k dflt = (case map_of d k of None \<Rightarrow> dflt | Some v \<Rightarrow> v)"

text \<open>
  \<^verbatim>\<open>spin_type\<close> is \<^verbatim>\<open>None\<close> or one of the strings produced by
  \<^verbatim>\<open>check_spin\<close>. The perfect-clear branch returns from the function before the
  back-to-back bonus is looked at.
\<close>

definition calculate_garbage :: "int \<Rightarrow> string option \<Rightarrow> bool \<Rightarrow> bool \<Rightarrow> bool \<Rightarrow> int" where
  "calculate_garbage lines_cleared spin_type is_mini back_to_back is_perfect_clear =
     (if lines_cleared = 0 then 0
      else if is_perfect_clear then dict_get [(1, 10), (2, 10), (3, 10), (4, 10)] lines_cleared 10
      else
        let base_garbage =
          (if spin_type = Some ''T-SPIN'' then
             (if is_mini then dict_get [(1, 0), (2, 1), (3, 2)] lines_cleared 0
              else dict_get [(1, 2), (2, 4), (3, 6)] lines_cleared 0)
           else if spin_type \<in> Some ` set [''S-SPIN'', ''Z-SPIN'', ''I-SPIN'', ''J-SPIN'', ''L-SPIN''] then
             (if is_mini then dict_get [(1, 0), (2, 1), (3, 2), (4, 4)] lines_cleared 0
              else dict_get [(1, 2), (2, 4), (3, 6), (4, 8)] lines_cleared 0)
           else dict_get [(1, 0), (2, 1), (3, 2), (4, 4)] lines_cleared 0)
        in if back_to_back \<and> base_garbage > 0 then base_garbage + 1 else base_garbage)"

section \<open>Garbage queue (queue_garbage, reduce_garbage_queue)\<close>

text \<open>
  A queue entry is the Python list \<^verbatim>\<open>[amount, buffer_pieces, sender]\<close>. The
  message that \<^verbatim>\<open>queue_garbage\<close> also posts for the display is left out.
\<close>

record entry =
  lines :: int
  buffer_pieces :: int
  sender :: string

type_synonym garbage_queue = "entry list"

definition queue_garbage :: "int \<Rightarrow> string \<Rightarrow> garbage_queue \<Rightarrow> garbage_queue" where
  "queue_garbage amount sndr q =
     (if amount \<le> 0 then q
      else q @ [\<lparr>lines = amount, buffer_pieces = GARBAGE_BUFFER_PIECES, sender = sndr\<rparr>])"

text \<open>
  The \<^verbatim>\<open>while remaining > 0 and garbage_queue\<close> loop: each iteration either pops the
  front entry (and goes on with what is left of \<^verbatim>\<open>remaining\<close>) or shrinks it and
  sets \<^verbatim>\<open>remaining\<close> to 0, which ends the loop.
\<close>

fun reduce_loop :: "int \<Rightarrow> garbage_queue \<Rightarrow> garbage_queue" where
  "reduce_loop remaining [] = []"
| "reduce_loop remaining (e # q) =
     (if remaining > 0 then
        (if lines e \<le> remaining then reduce_loop (remaining - lines e) q
         else e\<lparr>lines := lines e - remaining\<rparr> # q)
      else e # q)"

definition reduce_garbage_queue :: "int \<Rightarrow> garbage_queue \<Rightarrow> garbage_queue" where
  "reduce_garbage_queue lines_cleared q =
     (if lines_cleared \<le> 0 \<or> q = [] then q
      else map (\<lambda>e. e\<lparr>buffer_pieces := buffer_pieces e + lines_cleared\<rparr>)
             (reduce_loop lines_cleared q))"


section \<open>Board (new_board, collide, lock, clear_lines, add_garbage)\<close>

type_synonym board = "int list list"
type_synonym shape = "int list list"

definition new_board :: board where
  "new_board = replicate (nat HEIGHT) (replicate (nat WIDTH) 0)"

text \<open>
  \<^verbatim>\<open>collide\<close> returns True at the first filled shape cell that is outside the side
  walls, below the floor, or on an occupied board cell; cells above the board
  (\<^verbatim>\<open>ny < 0\<close>) are never tested against the board. The board is read only at
  \<^verbatim>\<open>0 <= nx < WIDTH\<close> and \<^verbatim>\<open>0 <= ny < HEIGHT\<close>, which is in range on a board of
  HEIGHT rows of WIDTH cells.
\<close>

definition collide_cell :: "board \<Rightarrow> shape \<Rightarrow> int \<Rightarrow> int \<Rightarrow> nat \<Rightarrow> nat \<Rightarrow> bool" where
  "collide_cell board shape x y r c =
     (truthy (shape ! r ! c) \<and>
      (let nx = x + int c; ny = y + int r
       in (nx < 0 \<or> nx \<ge> WIDTH \<or> ny \<ge> HEIGHT) \<or> (ny \<ge> 0 \<and> truthy (board ! nat ny ! nat nx))))"

definition collide :: "board \<Rightarrow> shape \<Rightarrow> int \<Rightarrow> int \<Rightarrow> bool" where
  "collide board shape x y =
     list_ex (\<lambda>r. list_ex (\<lambda>c. collide_cell board shape x y r c) [0..<length (shape ! 0)])
       [0..<length shape]"

text \<open>
  \<^verbatim>\<open>board[row][col] = v\<close> with Python's indexing: a negative index counts from the
  end, an index out of range raises IndexError.
\<close>

definition py_index :: "nat \<Rightarrow> int \<Rightarrow> py_error + nat" where
  "py_index n i =
     (let j = (if i < 0 then i + int n else i)
      in if 0 \<le> j \<and> j < int n then Inr (nat j) else Inl IndexError)"

definition set_cell :: "board \<Rightarrow> int \<Rightarrow> int \<Rightarrow> int \<Rightarrow> py_error + board" where
  "set_cell board row col v =
     bind_err (py_index (length board) row) (\<lambda>i.
     bind_err (py_index (length (board ! i)) col) (\<lambda>j.
       Inr (board[i := (board ! i)[j := v]])))"

fun lock_loop :: "board \<Rightarrow> shape \<Rightarrow> int \<Rightarrow> int \<Rightarrow> int \<Rightarrow> (nat \<times> nat) list \<Rightarrow> py_error + board" where
  "lock_loop board shape x y color [] = Inr board"
| "lock_loop board shape x y color ((r, c) # rest) =
     (if truthy (shape ! r ! c) \<and> y + int r \<ge> 0 then
        bind_err (set_cell board (y + int r) (x + int c) color)
          (\<lambda>board'. lock_loop board' shape x y color rest)
      else lock_loop board shape x y color rest)"

text \<open>The cells visited by \<^verbatim>\<open>for r in range(len(shape)): for c in range(len(shape[0]))\<close>.\<close>

definition shape_cells :: "shape \<Rightarrow> (nat \<times> nat) list" where
  "shape_cells shape =
     concat (map (\<lambda>r. map (\<lambda>c. (r, c)) [0..<length (shape ! 0)]) [0..<length shape])"

definition lock :: "board \<Rightarrow> shape \<Rightarrow> int \<Rightarrow> int \<Rightarrow> int \<Rightarrow> py_error + board" where
  "lock board shape x y color = lock_loop board shape x y color (shape_cells shape)"

definition clear_lines :: "board \<Rightarrow> board \<times> int" where
  "clear_lines board =
     (let new = filter (\<lambda>row. \<not> list_all truthy row) board;
          cleared = HEIGHT - int (length new)
      in (replicate (nat (HEIGHT - int (length new))) (replicate (nat WIDTH) 0) @ new, cleared))"

definition garbage_line :: "int \<Rightarrow> int list" where
  "garbage_line hole_pos = map (\<lambda>i. if int i \<noteq> hole_pos then 8 else 0) [0..<nat WIDTH]"

text \<open>
  \<^verbatim>\<open>add_garbage\<close> draws one hole column per line from \<^verbatim>\<open>random.randint\<close>; the
  draws are the parameter \<open>hole\<close> (the i-th draw of the call is \<open>hole i\<close>).
  \<^verbatim>\<open>board.pop(0)\<close> raises IndexError on an empty board.
\<close>

fun add_garbage_loop :: "nat \<Rightarrow> (nat \<Rightarrow> int) \<Rightarrow> nat \<Rightarrow> board \<Rightarrow> py_error + board" where
  "add_garbage_loop 0 hole i board = Inr board"
| "add_garbage_loop (Suc k) hole i board =
     (case board of
        [] \<Rightarrow> Inl IndexError
      | _ # rest \<Rightarrow> add_garbage_loop k hole (Suc i) (rest @ [garbage_line (hole i)]))"

definition add_garbage :: "board \<Rightarrow> int \<Rightarrow> (nat \<Rightarrow> int) \<Rightarrow> py_error + board" where
  "add_garbage board n hole = add_garbage_loop (nat n) hole 0 board"

text \<open>The board invariant of the data model: HEIGHT rows of WIDTH cells, each in 0..8.\<close>

definition valid_board :: "board \<Rightarrow> bool" where
  "valid_board board =
     (length board = nat HEIGHT \<and>
      list_all (\<lambda>row. length row = nat WIDTH \<and> list_all (\<lambda>v. 0 \<le> v \<and> v \<le> 8) row) board)"

text \<open>
  The boards a game can reach through the three board operations, \<^verbatim>\<open>lock\<close> being
  applied where the game applies it: at a position where the piece does not collide.
\<close>

inductive reachable :: "board \<Rightarrow> bool" where
  reach_new: "reachable new_board"
| reach_lock: "reachable b \<Longrightarrow> \<not> collide b shape x y \<Longrightarrow> 1 \<le> color \<Longrightarrow> color \<le> 8 \<Longrightarrow>
                lock b shape x y color = Inr b' \<Longrightarrow> reachable b'"
| reach_clear: "reachable b \<Longrightarrow> reachable (fst (clear_lines b))"
| reach_garbage: "reachable b \<Longrightarrow> 0 \<le> n \<Longrightarrow> add_garbage b n hole = Inr b' \<Longrightarrow> reachable b'"

section \<open>Ghost projection (get_ghost_y)\<close>



section \<open>Spin detection (check_tspin, check_spin)\<close>






section \<open>Incoming garbage from peers (process_incoming_garbage)\<close>

text \<open>
  The two fields of a scanned peer state that the function reads. \<^verbatim>\<open>remote_states\<close>
  is a dictionary, here the list of its items in iteration order (keys distinct); the
  ledger \<^verbatim>\<open>_received_garbage_from\<close> is a dictionary read with default 0.
\<close>

record peer_state =
  is_dead :: bool
  cumulative_garbage :: int

type_synonym ledger = "string \<rightharpoonup> int"

definition ledger_get :: "ledger \<Rightarrow> string \<Rightarrow> int" where
  "ledger_get led player = (case led player of None \<Rightarrow> 0 | Some v \<Rightarrow> v)"

fun process_loop ::
  "(string \<times> peer_state) list \<Rightarrow> ledger \<Rightarrow> (int \<times> string) list \<Rightarrow> (int \<times> string) list \<times> ledger" where
  "process_loop [] led garbage_list = (garbage_list, led)"
| "process_loop ((player, state) # rest) led garbage_list =
     (if is_dead state then process_loop rest led garbage_list
      else
        let cumulative = cumulative_garbage state;
            last_received = ledger_get led player
        in if cumulative > last_received then
             process_loop rest (led(player \<mapsto> cumulative))
               (garbage_list @ [(cumulative - last_received, player)])
           else process_loop rest led garbage_list)"

definition process_incoming_garbage ::
  "(string \<times> peer_state) list \<Rightarrow> ledger \<Rightarrow> (int \<times> string) list \<times> ledger" where
  "process_incoming_garbage remote_states led = process_loop remote_states led []"

text \<open>
  One read interval of the game loop: the scan is processed and every returned
  \<^verbatim>\<open>(amount, sender)\<close> goes through \<^verbatim>\<open>queue_garbage\<close>.
\<close>

definition poll :: "(string \<times> peer_state) list \<Rightarrow> ledger \<times> garbage_queue \<Rightarrow> ledger \<times> garbage_queue" where
  "poll remote_states s =
     (let (garbage_list, led') = process_incoming_garbage remote_states (fst s)
      in (led', fold (\<lambda>(amount, sndr) q. queue_garbage amount sndr q) garbage_list (snd s)))"

definition polls :: "(string \<times> peer_state) list list \<Rightarrow> ledger \<times> garbage_queue \<Rightarrow> ledger \<times> garbage_queue" where
  "polls scans s = fold poll scans s"

text \<open>The lines in a queue that are attributed to a sender.\<close>

definition lines_from :: "string \<Rightarrow> garbage_queue \<Rightarrow> int" where
  "lines_from p q = sum_list (map lines (filter (\<lambda>e. sender e = p) q))"

text \<open>The counter a scan carries for a peer, and the lines a returned list credits to it.\<close>

definition counter :: "string \<Rightarrow> (string \<times> peer_state) list \<Rightarrow> int" where
  "counter p scan = (case map_of scan p of None \<Rightarrow> 0 | Some st \<Rightarrow> cumulative_garbage st)"

definition credited :: "string \<Rightarrow> (int \<times> string) list \<Rightarrow> int" where
  "credited p garbage_list = sum_list (map fst (filter (\<lambda>g. snd g = p) garbage_list))"

text \<open>A scan that holds a state of peer \<open>p\<close>, alive.\<close>

definition scan_of_alive :: "string \<Rightarrow> (string \<times> peer_state) list \<Rightarrow> bool" where
  "scan_of_alive p scan =
     (distinct (map fst scan) \<and> (case map_of scan p of None \<Rightarrow> False | Some st \<Rightarrow> \<not> is_dead st))"

text \<open>The sum of the line counts of a queue, used to state cancellation.\<close>

definition lines_sum :: "garbage_queue \<Rightarrow> int" where
  "lines_sum q = sum_list (map lines q)"

section \<open>The three-corner rule as the specification words it\<close>




section \<open>Pieces (PIECE_NAMES, TETROMINOES, COLORS)\<close>

definition PIECE_NAMES :: "string list" where
  "PIECE_NAMES = [''I'', ''O'', ''T'', ''S'', ''Z'', ''J'', ''L'']"

text \<open>The dictionaries, as the lists of their items in insertion order.\<close>

definition TETROMINOES :: "(string \<times> shape) list" where
  "TETROMINOES =
     [(''I'', [[0, 0, 0, 0], [1, 1, 1, 1], [0, 0, 0, 0], [0, 0, 0, 0]]),
      (''O'', [[1, 1], [1, 1]]),
      (''T'', [[0, 1, 0], [1, 1, 1], [0, 0, 0]]),
      (''S'', [[0, 1, 1], [1, 1, 0], [0, 0, 0]]),
      (''Z'', [[1, 1, 0], [0, 1, 1], [0, 0, 0]]),
      (''J'', [[1, 0, 0], [1, 1, 1], [0, 0, 0]]),
      (''L'', [[0, 0, 1], [1, 1, 1], [0, 0, 0]])]"

definition COLORS :: "(string \<times> int) list" where
  "COLORS = [(''I'', 1), (''O'', 2), (''T'', 3), (''S'', 4), (''Z'', 5), (''J'', 6), (''L'', 7),
             (''garbage'', 8)]"

text \<open>\<^verbatim>\<open>TETROMINOES[name]\<close> and \<^verbatim>\<open>COLORS[name]\<close>: a missing key raises KeyError.\<close>

definition tetromino :: "string \<Rightarrow> py_error + shape" where
  "tetromino name = (case map_of TETROMINOES name of None \<Rightarrow> Inl KeyError | Some s \<Rightarrow> Inr s)"

definition color_of :: "string \<Rightarrow> py_error + int" where
  "color_of name = (case map_of COLORS name of None \<Rightarrow> Inl KeyError | Some c \<Rightarrow> Inr c)"

section \<open>Bag, spawn and hold (main)\<close>

text \<open>
  \<^verbatim>\<open>random.shuffle\<close> is the parameter \<open>shuffle\<close>: \<open>shuffle k xs\<close> is the order
  in which the \<open>k\<close>-th call leaves the list \<open>xs\<close>. \<^verbatim>\<open>refill_bag\<close> shuffles the keys
  of \<^verbatim>\<open>TETROMINOES\<close>.
\<close>

type_synonym shuffle = "nat \<Rightarrow> string list \<Rightarrow> string list"

definition refill_bag :: "shuffle \<Rightarrow> nat \<Rightarrow> string list" where
  "refill_bag shuffle k = shuffle k (map fst TETROMINOES)"

text \<open>
  The local variables of \<^verbatim>\<open>main\<close> that spawning and holding read and write, with
  the number of shuffles drawn so far. The wall-clock variable
  \<^verbatim>\<open>lock_delay_start\<close>, which both set to \<^verbatim>\<open>None\<close>, is left out.
\<close>

record game =
  piece_bag :: "string list"
  shuffle_count :: nat
  current_piece_name :: string
  current_rotation :: int
  cur_shape :: shape
  current_color :: int
  next_piece_name :: string
  next_shape :: shape
  held_piece_name :: "string option"
  held_shape :: "shape option"
  piece_x :: int
  piece_y :: int
  can_hold :: bool
  lock_delay_resets :: int
  last_rotation_kick :: int
  last_rotation_direction :: "string option"
  last_action_was_rotation :: bool

text \<open>\<^verbatim>\<open>if not piece_bag: piece_bag.extend(refill_bag())\<close>\<close>

definition refill_if_empty :: "shuffle \<Rightarrow> game \<Rightarrow> game" where
  "refill_if_empty shuffle g =
     (if piece_bag g = []
      then g\<lparr>piece_bag := piece_bag g @ refill_bag shuffle (shuffle_count g), shuffle_count := Suc (shuffle_count g)\<rparr>
      else g)"

text \<open>
  The block that takes the next piece from the front of the bag, shared by
  \<^verbatim>\<open>spawn_new_piece\<close> and by a hold with an empty hold slot: refill if empty, pop the
  front, refill if empty, peek at the next. \<^verbatim>\<open>pop(0)\<close> and \<^verbatim>\<open>piece_bag[0]\<close> raise
  IndexError on an empty list.
\<close>

definition take_piece :: "shuffle \<Rightarrow> game \<Rightarrow> py_error + game" where
  "take_piece shuffle g =
     (let g1 = refill_if_empty shuffle g
      in case piece_bag g1 of
           [] \<Rightarrow> Inl IndexError
         | name # rest \<Rightarrow>
             bind_err (tetromino name) (\<lambda>sh.
               let g2 = refill_if_empty shuffle
                          (g1\<lparr>piece_bag := rest, current_piece_name := name,
                              current_rotation := 0, cur_shape := sh\<rparr>)
               in case piece_bag g2 of
                    [] \<Rightarrow> Inl IndexError
                  | nxt # _ \<Rightarrow>
                      bind_err (tetromino nxt) (\<lambda>nsh.
                        Inr (g2\<lparr>next_piece_name := nxt, next_shape := nsh\<rparr>))))"

text \<open>\<^verbatim>\<open>x = WIDTH // 2 - len(shape[0]) // 2\<close>\<close>

definition spawn_x :: "shape \<Rightarrow> py_error + int" where
  "spawn_x sh =
     (case sh of [] \<Rightarrow> Inl IndexError | row0 # _ \<Rightarrow> Inr (WIDTH div 2 - int (length row0) div 2))"

text \<open>The placement and the resets that end both \<^verbatim>\<open>spawn_new_piece\<close> and a hold.\<close>

definition place_piece :: "bool \<Rightarrow> game \<Rightarrow> py_error + game" where
  "place_piece hold_allowed g =
     bind_err (color_of (current_piece_name g)) (\<lambda>col.
     bind_err (spawn_x (cur_shape g)) (\<lambda>px.
       Inr (g\<lparr>current_color := col, piece_x := px, piece_y := -1, can_hold := hold_allowed,
              lock_delay_resets := 0, last_rotation_kick := 0,
              last_rotation_direction := None, last_action_was_rotation := False\<rparr>)))"

text \<open>
  \<^verbatim>\<open>spawn_new_piece\<close> returns False when the new piece collides one row below its
  spawn position (top-out).
\<close>

definition spawn_new_piece :: "shuffle \<Rightarrow> board \<Rightarrow> game \<Rightarrow> py_error + (bool \<times> game)" where
  "spawn_new_piece shuffle board g =
     bind_err (take_piece shuffle g) (\<lambda>g1.
     bind_err (place_piece True g1) (\<lambda>g2.
       Inr (\<not> collide board (cur_shape g2) (piece_x g2) (piece_y g2 + 1), g2)))"

text \<open>The hold key; it is ignored unless \<^verbatim>\<open>can_hold\<close>.\<close>

definition hold :: "shuffle \<Rightarrow> game \<Rightarrow> py_error + game" where
  "hold shuffle g =
     (if \<not> can_hold g then Inr g
      else
        bind_err
          (case held_shape g of
             None \<Rightarrow>
               bind_err (tetromino (current_piece_name g)) (\<lambda>hs.
                 take_piece shuffle
                   (g\<lparr>held_shape := Some hs, held_piece_name := Some (current_piece_name g)\<rparr>))
           | Some _ \<Rightarrow>
               (case held_piece_name g of
                  None \<Rightarrow> Inl KeyError
                | Some h \<Rightarrow>
                    bind_err (tetromino h) (\<lambda>sh.
                    bind_err (tetromino (current_piece_name g)) (\<lambda>hs.
                      Inr (g\<lparr>cur_shape := sh, held_shape := Some hs, current_piece_name := h,
                             held_piece_name := Some (current_piece_name g),
                             current_rotation := 0\<rparr>)))))
          (place_piece False))"

text \<open>
  The first piece: \<^verbatim>\<open>while not any(shape[0]): shape = shape[1:] + [shape[0]]; y -= 1\<close>
  moves empty top rows to the bottom, and does not end on a shape without a filled cell.
\<close>

partial_function (option) shift_rows :: "shape \<Rightarrow> int \<Rightarrow> (py_error + shape \<times> int) option" where
  "shift_rows sh y =
     (case sh of
        [] \<Rightarrow> Some (Inl IndexError)
      | row0 # rest \<Rightarrow>
          if \<not> list_ex truthy row0 then shift_rows (rest @ [row0]) (y - 1)
          else Some (Inr (sh, y)))"

definition start_game :: "shuffle \<Rightarrow> (py_error + game) option" where
  "start_game shuffle =
     (case refill_bag shuffle 0 of
        [] \<Rightarrow> Some (Inl IndexError)
      | name # rest \<Rightarrow>
          (case tetromino name of
             Inl e \<Rightarrow> Some (Inl e)
           | Inr sh \<Rightarrow>
               let bag = (if rest = [] then refill_bag shuffle 1 else rest);
                   k = (if rest = [] then 2 else 1)
               in (case bag of
                    [] \<Rightarrow> Some (Inl IndexError)
                  | nxt # _ \<Rightarrow>
                      (case tetromino nxt of
                         Inl e \<Rightarrow> Some (Inl e)
                       | Inr nsh \<Rightarrow>
                           (case color_of name of
                              Inl e \<Rightarrow> Some (Inl e)
                            | Inr col \<Rightarrow>
                                (case spawn_x sh of
                                   Inl e \<Rightarrow> Some (Inl e)
                                 | Inr px \<Rightarrow>
                                     (case shift_rows sh 0 of
                                        None \<Rightarrow> None
                                      | Some (Inl e) \<Rightarrow> Some (Inl e)
                                      | Some (Inr (sh', y')) \<Rightarrow>
                                          Some (Inr \<lparr>piece_bag = bag, shuffle_count = k,
                                            current_piece_name = name, current_rotation = 0,
                                            cur_shape = sh', current_color = col,
                                            next_piece_name = nxt, next_shape = nsh,
                                            held_piece_name = None, held_shape = None,
                                            piece_x = px, piece_y = -1, can_hold = True,
                                            lock_delay_resets = 0, last_rotation_kick = 0,
                                            last_rotation_direction = None,
                                            last_action_was_rotation = False\<rparr>))))))))"

text \<open>
  The events of a game that take pieces: a lock followed by \<^verbatim>\<open>spawn_new_piece\<close> (on the
  board as it is after the lock) and the hold key. \<open>play\<close> runs them and logs, in order,
  every piece taken from the front of the bag; the game ends when a spawn tops out.
\<close>

datatype event = Lock_spawn board | Hold_key

fun play :: "shuffle \<Rightarrow> event list \<Rightarrow> game \<Rightarrow> string list \<Rightarrow> py_error + (game \<times> string list)" where
  "play shuffle [] g log = Inr (g, log)"
| "play shuffle (Lock_spawn board # evs) g log =
     (case spawn_new_piece shuffle board g of
        Inl e \<Rightarrow> Inl e
      | Inr (ok, g') \<Rightarrow>
          if ok then play shuffle evs g' (log @ [current_piece_name g'])
          else Inr (g', log @ [current_piece_name g']))"
| "play shuffle (Hold_key # evs) g log =
     (case hold shuffle g of
        Inl e \<Rightarrow> Inl e
      | Inr g' \<Rightarrow>
          play shuffle evs g'
            (if can_hold g \<and> held_shape g = None then log @ [current_piece_name g'] else log))"

definition game_log :: "shuffle \<Rightarrow> event list \<Rightarrow> (py_error + (game \<times> string list)) option" where
  "game_log shuffle evs =
     (case start_game shuffle of
        None \<Rightarrow> None
      | Some (Inl e) \<Rightarrow> Some (Inl e)
      | Some (Inr g) \<Rightarrow> Some (play shuffle evs g [current_piece_name g]))"

text \<open>The contract of \<^verbatim>\<open>random.shuffle\<close>: the list is rearranged, nothing else.\<close>

definition is_shuffle :: "shuffle \<Rightarrow> bool" where
  "is_shuffle shuffle = (\<forall>k xs. mset (shuffle k xs) = mset xs)"

text \<open>
  The pieces that \<open>k\<close> shuffles supply, in order, and the invariant of the game
  variables: the pieces taken so far followed by the bag are what the shuffles supplied,
  the bag is not empty, and the current and the held piece are among the seven.
\<close>

definition bag_stream :: "shuffle \<Rightarrow> nat \<Rightarrow> string list" where
  "bag_stream shuffle k = concat (map (refill_bag shuffle) [0..<k])"

definition game_inv :: "shuffle \<Rightarrow> game \<Rightarrow> string list \<Rightarrow> bool" where
  "game_inv shuffle g log =
     (log @ piece_bag g = bag_stream shuffle (shuffle_count g) \<and> piece_bag g \<noteq> [] \<and>
      current_piece_name g \<in> set PIECE_NAMES \<and>
      (held_shape g = None \<or> held_piece_name g \<in> Some ` set PIECE_NAMES))"

text \<open>
  A piece stands at the spawn position the program computes: \<open>x\<close> is half the width of
  the board minus half the width of the shape matrix (both halves rounded down), \<open>y\<close> is
  \<open>-1\<close>; the shape matrix has the width of the piece's entry in \<^verbatim>\<open>TETROMINOES\<close>.
\<close>

definition at_spawn_position :: "game \<Rightarrow> bool" where
  "at_spawn_position g =
     (current_piece_name g \<in> set PIECE_NAMES \<and>
      (case cur_shape g of
         [] \<Rightarrow> False
       | row0 # _ \<Rightarrow>
           (case tetromino (current_piece_name g) of
              Inr (trow # _) \<Rightarrow> length row0 = length trow
            | _ \<Rightarrow> False) \<and>
           piece_x g = WIDTH div 2 - int (length row0) div 2) \<and>
      piece_x g = (if current_piece_name g = ''I'' then 3 else 4) \<and>
      piece_y g = -1)"

section \<open>Rotation of shape matrices (rotate_matrix, rotate_piece)\<close>

text \<open>
  \<^verbatim>\<open>zip(*rows)\<close> yields the columns of \<open>rows\<close>, as many as the shortest row has
  cells. \<^verbatim>\<open>rotate_matrix\<close> is \<^verbatim>\<open>zip(*shape[::-1])\<close>.
\<close>

definition zip_star :: "'a list list \<Rightarrow> 'a list list" where
  "zip_star rows =
     (case rows of
        [] \<Rightarrow> []
      | row0 # others \<Rightarrow>
          map (\<lambda>i. map (\<lambda>row. row ! i) rows) [0..<fold min (map length others) (length row0)])"

definition rotate_matrix :: "shape \<Rightarrow> shape" where
  "rotate_matrix sh = zip_star (rev sh)"

definition rotate_piece :: "shape \<Rightarrow> int \<Rightarrow> shape" where
  "rotate_piece sh n_times = (rotate_matrix ^^ nat (n_times mod 4)) sh"

section \<open>State codec (encode_game_state, decode_game_state)\<close>

unbundle bit_operations_syntax

text \<open>\<^verbatim>\<open>(v >> i) & 1\<close>\<close>

definition bit_at :: "int \<Rightarrow> nat \<Rightarrow> int" where
  "bit_at v i = drop_bit i v AND 1"

text \<open>\<^verbatim>\<open>PIECE_NAMES.index(piece_name)\<close>, used under \<^verbatim>\<open>piece_name in PIECE_NAMES\<close>.\<close>

fun index_of :: "'a \<Rightarrow> 'a list \<Rightarrow> nat" where
  "index_of v [] = 0"
| "index_of v (w # ws) = (if v = w then 0 else Suc (index_of v ws))"

definition cell_bits :: "int \<Rightarrow> int list" where
  "cell_bits cell = (let cell_val = min 15 (max 0 cell) in map (bit_at cell_val) [3, 2, 1, 0])"

definition encode_bits :: "board \<Rightarrow> string \<Rightarrow> int \<Rightarrow> int \<Rightarrow> int \<Rightarrow> int list" where
  "encode_bits board piece_name rotation px py =
     (let piece_idx = (if piece_name \<in> set PIECE_NAMES
                       then int (index_of piece_name PIECE_NAMES) else 0);
          rot = rotation mod 4;
          x_enc = max 0 (min 31 (px + 4));
          y_enc = max 0 (min 31 (py + 4))
      in concat (map (\<lambda>row. concat (map cell_bits row)) board)
         @ map (bit_at piece_idx) [2, 1, 0]
         @ [bit_at rot 1, rot AND 1]
         @ map (bit_at x_enc) [4, 3, 2, 1, 0]
         @ map (bit_at y_enc) [4, 3, 2, 1, 0])"

text \<open>
  The byte that starts at bit \<open>i\<close>:
  \<^verbatim>\<open>for j in range(8): if i + j < len(bits): byte_val |= (bits[i + j] << (7 - j))\<close>
\<close>

definition pack_byte :: "int list \<Rightarrow> nat \<Rightarrow> int" where
  "pack_byte bits i =
     fold (\<lambda>j byte_val. if i + j < length bits
                          then byte_val OR push_bit (7 - j) (bits ! (i + j)) else byte_val)
       [0..<8] 0"

text \<open>\<^verbatim>\<open>for i in range(0, len(bits), 8)\<close>\<close>

definition pack_bytes :: "int list \<Rightarrow> int list" where
  "pack_bytes bits = map (\<lambda>k. pack_byte bits (8 * k)) [0..<(length bits + 7) div 8]"

subsection \<open>The standard library's base64\<close>

text \<open>
  \<^verbatim>\<open>base64.urlsafe_b64encode\<close> and \<^verbatim>\<open>base64.urlsafe_b64decode\<close> belong to Python's
  standard library, not to the program. They are modelled on bytes as integers 0..255:
  the encoder after RFC 4648 (three bytes to four characters, \<open>=\<close> padding, then \<open>+\<close>
  and \<open>/\<close> replaced by \<open>-\<close> and \<open>_\<close>), the decoder after the non-strict decoder
  of CPython's \<^verbatim>\<open>binascii.a2b_base64\<close>, which skips characters outside the alphabet,
  stops at a complete padding, and raises \<^verbatim>\<open>binascii.Error\<close> on an incomplete
  last group.
\<close>

definition std_alphabet :: string where
  "std_alphabet = ''ABCDEFGHIJKLMNOPQRSTUVWXYZabcdefghijklmnopqrstuvwxyz0123456789+/''"

definition urlsafe_encode_translation :: "char \<Rightarrow> char" where
  "urlsafe_encode_translation ch =
     (if ch = CHR ''+'' then CHR ''-'' else if ch = CHR ''/'' then CHR ''_'' else ch)"

definition urlsafe_decode_translation :: "char \<Rightarrow> char" where
  "urlsafe_decode_translation ch =
     (if ch = CHR ''-'' then CHR ''+'' else if ch = CHR ''_'' then CHR ''/'' else ch)"

definition b64_char :: "int \<Rightarrow> char" where
  "b64_char v = std_alphabet ! nat v"

fun b64encode :: "int list \<Rightarrow> string" where
  "b64encode (b0 # b1 # b2 # rest) =
     [b64_char (b0 div 4), b64_char ((b0 mod 4) * 16 + b1 div 16),
      b64_char ((b1 mod 16) * 4 + b2 div 64), b64_char (b2 mod 64)] @ b64encode rest"
| "b64encode [b0, b1] =
     [b64_char (b0 div 4), b64_char ((b0 mod 4) * 16 + b1 div 16),
      b64_char ((b1 mod 16) * 4), CHR ''='']"
| "b64encode [b0] = [b64_char (b0 div 4), b64_char ((b0 mod 4) * 16), CHR ''='', CHR ''='']"
| "b64encode [] = []"

definition urlsafe_b64encode :: "int list \<Rightarrow> string" where
  "urlsafe_b64encode bs = map urlsafe_encode_translation (b64encode bs)"

fun index_opt :: "'a \<Rightarrow> 'a list \<Rightarrow> nat option" where
  "index_opt v [] = None"
| "index_opt v (w # ws) = (if v = w then Some 0 else map_option Suc (index_opt v ws))"

definition b64_value :: "char \<Rightarrow> int option" where
  "b64_value ch = map_option int (index_opt ch std_alphabet)"

definition emit :: "int \<Rightarrow> py_error + int list \<Rightarrow> py_error + int list" where
  "emit b r = (case r of Inl e \<Rightarrow> Inl e | Inr bs \<Rightarrow> Inr (b # bs))"

fun a2b_base64 :: "string \<Rightarrow> nat \<Rightarrow> int \<Rightarrow> nat \<Rightarrow> py_error + int list" where
  "a2b_base64 [] quad_pos leftchar pads = (if quad_pos \<noteq> 0 then Inl BinasciiError else Inr [])"
| "a2b_base64 (ch # rest) quad_pos leftchar pads =
     (if ch = CHR ''='' then
        (if quad_pos \<ge> 2 \<and> quad_pos + (pads + 1) \<ge> 4 then Inr []
         else a2b_base64 rest quad_pos leftchar (if quad_pos \<ge> 2 then pads + 1 else pads))
      else
        (case b64_value ch of
           None \<Rightarrow> a2b_base64 rest quad_pos leftchar pads
         | Some v \<Rightarrow>
             if quad_pos = 0 then a2b_base64 rest 1 v 0
             else if quad_pos = 1 then emit (leftchar * 4 + v div 16) (a2b_base64 rest 2 (v mod 16) 0)
             else if quad_pos = 2 then emit (leftchar * 16 + v div 4) (a2b_base64 rest 3 (v mod 4) 0)
             else emit (leftchar * 64 + v) (a2b_base64 rest 0 0 0)))"

text \<open>A \<^verbatim>\<open>str\<close> argument must be ASCII, or \<^verbatim>\<open>ValueError\<close> is raised.\<close>

definition urlsafe_b64decode :: "string \<Rightarrow> py_error + int list" where
  "urlsafe_b64decode s =
     (if list_ex (\<lambda>ch. of_char ch \<ge> (128 :: nat)) s then Inl ValueError
      else a2b_base64 (map urlsafe_decode_translation s) 0 0 0)"

subsection \<open>Encoding and decoding\<close>

text \<open>\<^verbatim>\<open>.rstrip('=')\<close>\<close>

definition rstrip_eq :: "string \<Rightarrow> string" where
  "rstrip_eq s = rev (dropWhile (\<lambda>ch. ch = CHR ''='') (rev s))"

definition encode_game_state :: "board \<Rightarrow> string \<Rightarrow> int \<Rightarrow> int \<Rightarrow> int \<Rightarrow> string" where
  "encode_game_state board piece_name rotation px py =
     rstrip_eq (urlsafe_b64encode (pack_bytes (encode_bits board piece_name rotation px py)))"

text \<open>\<^verbatim>\<open>for byte_val in byte_array: for j in range(8): bits.append((byte_val >> (7 - j)) & 1)\<close>\<close>

definition unpack_bits :: "int list \<Rightarrow> int list" where
  "unpack_bits byte_array =
     concat (map (\<lambda>byte_val. map (\<lambda>j. bit_at byte_val (7 - j)) [0..<8]) byte_array)"

text \<open>
  \<^verbatim>\<open>v = 0; for i in range(n): v = (v << 1) | bits[bit_idx + i]\<close>. The reads of the
  decoder are below 815, the length it has checked.
\<close>

definition read_bits :: "int list \<Rightarrow> nat \<Rightarrow> nat \<Rightarrow> int" where
  "read_bits bits bit_idx n = fold (\<lambda>i v. push_bit 1 v OR bits ! (bit_idx + i)) [0..<n] 0"

record decoded_state =
  d_board :: board
  d_piece_name :: string
  d_rotation :: int
  d_piece_x :: int
  d_piece_y :: int
  d_shape :: shape
  d_color :: int

text \<open>
  The result is \<open>Inr None\<close> where the function returns \<^verbatim>\<open>None\<close>. In the loop over
  the cells \<^verbatim>\<open>bit_idx\<close> advances by 4 per cell, row after row, so the cell in row
  \<open>r\<close> and column \<open>c\<close> is read at bit \<open>4 (r WIDTH + c)\<close>, and the piece fields
  start at bit \<open>4 WIDTH HEIGHT\<close>.
\<close>

definition decode_bits :: "int list \<Rightarrow> py_error + decoded_state option" where
  "decode_bits bits =
     (if length bits < 815 then Inr None
      else
        let brd = map (\<lambda>r. map (\<lambda>c. read_bits bits (4 * (r * nat WIDTH + c)) 4)
                               [0..<nat WIDTH]) [0..<nat HEIGHT];
            bit_idx = 4 * nat WIDTH * nat HEIGHT;
            piece_idx = (push_bit 2 (bits ! bit_idx) OR push_bit 1 (bits ! (bit_idx + 1)))
                          OR bits ! (bit_idx + 2);
            piece_name = (if piece_idx < int (length PIECE_NAMES)
                          then PIECE_NAMES ! nat piece_idx else ''I'');
            rot = push_bit 1 (bits ! (bit_idx + 3)) OR bits ! (bit_idx + 4);
            x_enc = read_bits bits (bit_idx + 5) 5;
            y_enc = read_bits bits (bit_idx + 10) 5
        in bind_err (tetromino piece_name) (\<lambda>sh.
             Inr (Some \<lparr>d_board = brd, d_piece_name = piece_name, d_rotation = rot,
                        d_piece_x = x_enc - 4, d_piece_y = y_enc - 4,
                        d_shape = rotate_piece sh rot,
                        d_color = (case map_of COLORS piece_name of
                                     None \<Rightarrow> 7 | Some col \<Rightarrow> col)\<rparr>)))"

text \<open>
  The padding is restored, the bytes are decoded (any exception of the decoder gives
  \<^verbatim>\<open>None\<close>) and unpacked, and the bits are read.
\<close>

definition decode_game_state :: "string \<Rightarrow> py_error + decoded_state option" where
  "decode_game_state encoded =
     (let padding = (4 - length encoded mod 4) mod 4;
          padded = encoded @ replicate padding (CHR ''='')
      in case urlsafe_b64decode padded of
           Inl e \<Rightarrow> Inr None
         | Inr byte_array \<Rightarrow> decode_bits (unpack_bits byte_array))"

text \<open>An entry of the alphabet is decoded to its index, is not the padding, and is ASCII.\<close>

definition b64_ok :: "nat \<Rightarrow> bool" where
  "b64_ok n = (let ch = urlsafe_encode_translation (b64_char (int n))
               in b64_value (urlsafe_decode_translation ch) = Some (int n) \<and> ch \<noteq> CHR ''=''
                  \<and> (of_char ch :: nat) < 128)"

section \<open>Properties of the attack calculator\<close>

text \<open>
  Claim C1, as stated, fails on perfect clears: the perfect-clear branch returns 10 with
  and without the back-to-back flag.
\<close>

theorem calculate_garbage_b2b_perfect_clear_counterexample:
  "calculate_garbage 1 None False True True \<noteq> calculate_garbage 1 None False False True + 1"
  by (simp add: calculate_garbage_def dict_get_def)

text \<open>
  Claim C1, amended: for cleared lines in 1..4 and a clear that is not a perfect clear,
  whenever the base (the count returned without back-to-back) is greater than 0, the count
  returned with back-to-back is exactly one more; for a perfect clear the count is 10 both
  with and without back-to-back.
\<close>

theorem calculate_garbage_b2b:
  assumes "1 \<le> n" and "n \<le> 4"
  shows "(0 < calculate_garbage n st mini False False \<longrightarrow>
            calculate_garbage n st mini True False = calculate_garbage n st mini False False + 1)
         \<and> calculate_garbage n st mini True True = 10
         \<and> calculate_garbage n st mini False True = 10"
proof -
  from assms have "n = 1 \<or> n = 2 \<or> n = 3 \<or> n = 4" by arith
  then show ?thesis
    by (auto simp add: calculate_garbage_def dict_get_def Let_def)
qed

theorem calculate_garbage_b2b_witness:
  "(1::int) \<le> 4 \<and> (4::int) \<le> 4 \<and> 0 < calculate_garbage 4 None False False False
   \<and> calculate_garbage 4 None False True False = 5
   \<and> calculate_garbage 2 (Some ''T-SPIN'') False True False = 5
   \<and> calculate_garbage 4 None False True True = 10"
  using calculate_garbage_b2b [of 4 None False] calculate_garbage_b2b [of 2 "Some ''T-SPIN''" False]
  by (simp add: calculate_garbage_def dict_get_def)

section \<open>Properties of the garbage queue\<close>

lemma lines_sum_take_nonneg:
  "\<forall>e\<in>set q. 0 < lines e \<Longrightarrow> 0 \<le> lines_sum (take k q)"
  unfolding lines_sum_def
  by (rule sum_list_nonneg) (auto dest!: in_set_takeD)

text \<open>
  The loop consumes exactly the longest prefix whose lines fit into \<open>n\<close> and shrinks
  the entry after it by what is left of \<open>n\<close>.
\<close>

lemma reduce_loop_prefix:
  "0 \<le> n \<Longrightarrow> \<forall>e\<in>set q. 0 < lines e \<Longrightarrow> k \<le> length q \<Longrightarrow> lines_sum (take k q) \<le> n \<Longrightarrow>
   (k < length q \<longrightarrow> n < lines_sum (take (Suc k) q)) \<Longrightarrow>
   reduce_loop n q =
     (if k = length q then []
      else (q ! k)\<lparr>lines := lines (q ! k) - (n - lines_sum (take k q))\<rparr> # drop (Suc k) q)"
proof (induction q arbitrary: k n)
  case Nil
  then show ?case by simp
next
  case (Cons e q)
  show ?case
  proof (cases k)
    case 0
    with Cons.prems show ?thesis by (simp add: lines_sum_def)
  next
    case (Suc k')
    from Cons.prems have pos: "\<forall>e\<in>set q. 0 < lines e" and e: "0 < lines e" by simp_all
    have nn: "0 \<le> lines_sum (take k' q)" using pos by (rule lines_sum_take_nonneg)
    from Cons.prems Suc have le: "lines e + lines_sum (take k' q) \<le> n"
      by (simp add: lines_sum_def)
    with nn e have a: "lines e \<le> n" "0 < n" "0 \<le> n - lines e" by arith+
    have "reduce_loop (n - lines e) q =
        (if k' = length q then []
         else (q ! k')\<lparr>lines := lines (q ! k') - (n - lines e - lines_sum (take k' q))\<rparr>
                # drop (Suc k') q)"
      using Cons.prems Suc le a pos
      by (intro Cons.IH) (auto simp add: lines_sum_def)
    with a Suc show ?thesis by (simp add: lines_sum_def algebra_simps)
  qed
qed

text \<open>
  Every entry of the queue has a positive line count: \<^verbatim>\<open>queue_garbage\<close> appends only
  positive amounts, and cancellation keeps the counts positive.
\<close>

lemma queue_garbage_positive:
  "\<forall>e\<in>set q. 0 < lines e \<Longrightarrow> \<forall>e\<in>set (queue_garbage amount s q). 0 < lines e"
  by (auto simp add: queue_garbage_def)

lemma reduce_loop_positive:
  "\<forall>e\<in>set q. 0 < lines e \<Longrightarrow> \<forall>e\<in>set (reduce_loop n q). 0 < lines e"
  by (induction n q rule: reduce_loop.induct) auto

lemma reduce_garbage_queue_positive:
  "\<forall>e\<in>set q. 0 < lines e \<Longrightarrow> \<forall>e\<in>set (reduce_garbage_queue n q). 0 < lines e"
  using reduce_loop_positive [of q n] by (auto simp add: reduce_garbage_queue_def)

text \<open>
  Claim C8: for a queue (of entries with positive line counts, as every queue of the game
  is) and \<open>n \<ge> 1\<close> cleared lines, let \<open>k\<close> be the number of leading entries whose lines
  together are at most \<open>n\<close>. Cancellation removes these \<open>k\<close> entries, shrinks the
  next entry (if there is one) by what is left of \<open>n\<close>, and adds \<open>n\<close> to the
  \<open>buffer_pieces\<close> of every remaining entry. In particular the queue
  \<open>[(3, b1), (2, b2)]\<close> becomes \<open>[(1, b2 + 4)]\<close> after a 4-line clear.
\<close>

theorem reduce_garbage_queue_front:
  assumes "1 \<le> n" and "\<forall>e\<in>set q. 0 < lines e" and "k \<le> length q"
    and "lines_sum (take k q) \<le> n"
    and "k < length q \<longrightarrow> n < lines_sum (take (Suc k) q)"
  shows "reduce_garbage_queue n q =
           map (\<lambda>e. e\<lparr>buffer_pieces := buffer_pieces e + n\<rparr>)
             (if k = length q then []
              else (q ! k)\<lparr>lines := lines (q ! k) - (n - lines_sum (take k q))\<rparr> # drop (Suc k) q)
         \<and> reduce_garbage_queue 4 [\<lparr>lines = 3, buffer_pieces = b1, sender = s1\<rparr>,
                                      \<lparr>lines = 2, buffer_pieces = b2, sender = s2\<rparr>]
             = [\<lparr>lines = 1, buffer_pieces = b2 + 4, sender = s2\<rparr>]"
proof -
  have "0 \<le> n" using assms(1) by simp
  from reduce_loop_prefix [OF this assms(2-5)] assms(1,3)
  show ?thesis
    by (cases "q = []") (simp_all add: reduce_garbage_queue_def)
qed

theorem reduce_garbage_queue_front_witness:
  "(1::int) \<le> 4
   \<and> list_all (\<lambda>e. 0 < lines e)
         [\<lparr>lines = 3, buffer_pieces = 1, sender = ''a''\<rparr>,
          \<lparr>lines = 2, buffer_pieces = 3, sender = ''b''\<rparr>,
          \<lparr>lines = 5, buffer_pieces = 3, sender = ''c''\<rparr>]
   \<and> reduce_garbage_queue 4 [\<lparr>lines = 3, buffer_pieces = 1, sender = ''a''\<rparr>,
                              \<lparr>lines = 2, buffer_pieces = 3, sender = ''b''\<rparr>,
                              \<lparr>lines = 5, buffer_pieces = 3, sender = ''c''\<rparr>]
       = [\<lparr>lines = 1, buffer_pieces = 7, sender = ''b''\<rparr>,
          \<lparr>lines = 5, buffer_pieces = 7, sender = ''c''\<rparr>]"
  using reduce_garbage_queue_front [of 4 "[\<lparr>lines = 3, buffer_pieces = 1, sender = ''a''\<rparr>,
                           \<lparr>lines = 2, buffer_pieces = 3, sender = ''b''\<rparr>,
                           \<lparr>lines = 5, buffer_pieces = 3, sender = ''c''\<rparr>]" 1]
  by (simp add: lines_sum_def)

section \<open>Properties of the incoming-garbage ledger\<close>

lemma credited_append [simp]: "credited p (xs @ ys) = credited p xs + credited p ys"
  by (simp add: credited_def)

lemma credited_Cons [simp]:
  "credited p (g # gs) = (if snd g = p then fst g else 0) + credited p gs"
  by (simp add: credited_def)

lemma credited_Nil [simp]: "credited p [] = 0"
  by (simp add: credited_def)

lemma ledger_get_upd [simp]:
  "ledger_get (led(q \<mapsto> v)) p = (if p = q then v else ledger_get led p)"
  by (simp add: ledger_get_def)

lemma process_loop_positive:
  "\<forall>g\<in>set gl. 0 < fst g \<Longrightarrow> \<forall>g\<in>set (fst (process_loop scan led gl)). 0 < fst g"
  by (induction scan led gl rule: process_loop.induct) (auto simp add: Let_def)

lemma process_loop_other:
  "p \<notin> fst ` set scan \<Longrightarrow>
   snd (process_loop scan led gl) p = led p \<and>
   credited p (fst (process_loop scan led gl)) = credited p gl"
  by (induction scan led gl rule: process_loop.induct) (auto simp add: Let_def)

lemma process_loop_peer:
  "distinct (map fst scan) \<Longrightarrow> map_of scan p = Some st \<Longrightarrow> \<not> is_dead st \<Longrightarrow>
   snd (process_loop scan led gl) p =
     (if cumulative_garbage st > ledger_get led p then Some (cumulative_garbage st) else led p) \<and>
   credited p (fst (process_loop scan led gl)) =
     credited p gl + (if cumulative_garbage st > ledger_get led p
                      then cumulative_garbage st - ledger_get led p else 0)"
proof (induction scan arbitrary: led gl)
  case Nil
  then show ?case by simp
next
  case (Cons a rest)
  obtain player state where a: "a = (player, state)" by (cases a)
  show ?case
  proof (cases "player = p")
    case True
    with Cons.prems a have st: "state = st" and notin: "p \<notin> fst ` set rest" by auto
    show ?thesis
      using True st a Cons.prems(3) process_loop_other [OF notin]
      by (simp add: Let_def)
  next
    case False
    with Cons.prems a have d: "distinct (map fst rest)" and m: "map_of rest p = Some st" by auto
    note IH = Cons.IH [OF d m Cons.prems(3)]
    let ?c = "cumulative_garbage state"
    show ?thesis
    proof (cases "\<not> is_dead state \<and> ?c > ledger_get led player")
      case True
      then have step: "process_loop (a # rest) led gl =
          process_loop rest (led(player \<mapsto> ?c)) (gl @ [(?c - ledger_get led player, player)])"
        using a by (simp add: Let_def)
      have lg: "ledger_get (led(player \<mapsto> ?c)) p = ledger_get led p"
        and lp: "(led(player \<mapsto> ?c)) p = led p"
        and cr: "credited p (gl @ [(?c - ledger_get led player, player)]) = credited p gl"
        using False by simp_all
      show ?thesis
        unfolding step
        using IH [of "led(player \<mapsto> ?c)" "gl @ [(?c - ledger_get led player, player)]"]
        unfolding lg lp cr .
    next
      case False
      then have step: "process_loop (a # rest) led gl = process_loop rest led gl"
        using a by (auto simp add: Let_def)
      show ?thesis unfolding step by (rule IH)
    qed
  qed
qed

lemma fold_queue_garbage_lines:
  "\<forall>g\<in>set gl. 0 < fst g \<Longrightarrow>
   lines_from p (fold (\<lambda>(amount, sndr) q. queue_garbage amount sndr q) gl q) = lines_from p q + credited p gl"
  by (induction gl arbitrary: q) (auto simp add: queue_garbage_def lines_from_def)

lemma poll_peer:
  assumes "scan_of_alive p scan" and "counter p scan = c"
  shows "ledger_get (fst (poll scan s)) p = max (ledger_get (fst s) p) c"
    and "lines_from p (snd (poll scan s)) = lines_from p (snd s) + (max (ledger_get (fst s) p) c - ledger_get (fst s) p)"
proof -
  from assms obtain st where d: "distinct (map fst scan)" and m: "map_of scan p = Some st"
    and al: "\<not> is_dead st" and c: "cumulative_garbage st = c"
    by (auto simp add: scan_of_alive_def counter_def split: option.splits)
  have pos: "\<forall>g\<in>set (fst (process_loop scan (fst s) [])). 0 < fst g"
    by (rule process_loop_positive) simp
  from process_loop_peer [OF d m al, of "fst s" "[]"] c
  have l: "snd (process_loop scan (fst s) []) p = (if c > ledger_get (fst s) p then Some c else fst s p)"
    and g: "credited p (fst (process_loop scan (fst s) [])) = (if c > ledger_get (fst s) p then c - ledger_get (fst s) p else 0)"
    by simp_all
  show "ledger_get (fst (poll scan s)) p = max (ledger_get (fst s) p) c"
    using l by (auto simp add: poll_def process_incoming_garbage_def split_def Let_def ledger_get_def)
  show "lines_from p (snd (poll scan s)) = lines_from p (snd s) + (max (ledger_get (fst s) p) c - ledger_get (fst s) p)"
    using g fold_queue_garbage_lines [OF pos]
    by (auto simp add: poll_def process_incoming_garbage_def split_def Let_def)
qed


lemma polls_snoc: "polls (scans @ [scan]) s = poll scan (polls scans s)"
  by (simp add: polls_def)

lemma polls_peer_lines:
  "\<forall>scan\<in>set scans. scan_of_alive p scan \<Longrightarrow>
   lines_from p (snd (polls scans s)) =
     lines_from p (snd s) + (ledger_get (fst (polls scans s)) p - ledger_get (fst s) p)"
proof (induction scans rule: rev_induct)
  case Nil
  then show ?case by (simp add: polls_def)
next
  case (snoc scan scans)
  then have al: "scan_of_alive p scan" by simp
  from snoc show ?case
    by (simp add: polls_snoc poll_peer [OF al refl])
qed

lemma polls_peer_bound:
  "\<forall>scan\<in>set scans. scan_of_alive p scan \<Longrightarrow> ledger_get (fst s) p \<le> M \<Longrightarrow>
   \<forall>scan\<in>set scans. counter p scan \<le> M \<Longrightarrow> ledger_get (fst (polls scans s)) p \<le> M"
proof (induction scans rule: rev_induct)
  case Nil
  then show ?case by (simp add: polls_def)
next
  case (snoc scan scans)
  then have al: "scan_of_alive p scan" by simp
  from snoc show ?case
    by (simp add: polls_snoc poll_peer [OF al refl])
qed

text \<open>
  Claim C2: a single observer whose ledger holds \<open>A\<close> for peer \<open>p\<close> processes any
  non-empty finite sequence of scans, each holding an alive state of \<open>p\<close>, whose counters
  for \<open>p\<close> are non-decreasing and end at \<open>B\<close> with \<open>A < B\<close>. The lines enqueued
  for sender \<open>p\<close>, summed over all the calls, are exactly \<open>B - A\<close>, whichever
  intermediate counters the scans hold.
\<close>

theorem garbage_exactly_once:
  assumes "ledger_get led p = A"
    and "scans \<noteq> []"
    and "\<forall>scan\<in>set scans. scan_of_alive p scan"
    and "sorted (map (counter p) scans)"
    and "counter p (last scans) = B"
    and "A < B"
  shows "lines_from p (snd (polls scans (led, q))) = lines_from p q + (B - A)"
proof -
  from assms(2) obtain front scan where sc: "scans = front @ [scan]"
    by (cases scans rule: rev_cases) auto
  with assms have al: "scan_of_alive p scan" and fr: "\<forall>s\<in>set front. scan_of_alive p s"
    and B: "counter p scan = B" by simp_all
  from assms(4) sc B have le: "\<forall>s\<in>set front. counter p s \<le> B"
    by (auto simp add: sorted_append)
  have "ledger_get (fst (polls front (led, q))) p \<le> B"
    using fr _ le by (rule polls_peer_bound) (use assms in simp)
  then have "ledger_get (fst (polls scans (led, q))) p = B"
    by (simp add: sc polls_snoc poll_peer [OF al B])
  with polls_peer_lines [OF assms(3), of "(led, q)"] assms(1) show ?thesis by simp
qed

theorem garbage_exactly_once_witness:
  "lines_from ''amy'' (snd (polls
      [[(''amy'', \<lparr>is_dead = False, cumulative_garbage = 3\<rparr>)],
       [(''bob'', \<lparr>is_dead = False, cumulative_garbage = 2\<rparr>),
        (''amy'', \<lparr>is_dead = False, cumulative_garbage = 12\<rparr>)]]
      (Map.empty, []))) = 12"
  using garbage_exactly_once [of Map.empty "''amy''" 0
      "[[(''amy'', \<lparr>is_dead = False, cumulative_garbage = 3\<rparr>)],
       [(''bob'', \<lparr>is_dead = False, cumulative_garbage = 2\<rparr>),
        (''amy'', \<lparr>is_dead = False, cumulative_garbage = 12\<rparr>)]]" 12 "[]"]
  by (simp add: ledger_get_def scan_of_alive_def counter_def lines_from_def)

lemma credited_positive:
  "\<forall>g\<in>set gl. 0 < fst g \<Longrightarrow> g \<in> set gl \<Longrightarrow> snd g = p \<Longrightarrow> 0 < credited p gl"
proof (induction gl)
  case Nil
  then show ?case by simp
next
  case (Cons h gl)
  have nn: "0 \<le> credited p gl"
    unfolding credited_def using Cons.prems(1) by (intro sum_list_nonneg) auto
  show ?case
  proof (cases "g = h")
    case True
    with Cons.prems nn show ?thesis by simp
  next
    case False
    with Cons have "0 < credited p gl" by simp
    with Cons.prems(1) show ?thesis by (simp add: less_imp_le add_nonneg_pos)
  qed
qed

text \<open>
  Claim C7, as stated, fails: a counter smaller than the ledger value is not written to
  the ledger.
\<close>

theorem counter_decrease_counterexample:
  "ledger_get (snd (process_incoming_garbage
       [(''amy'', \<lparr>is_dead = False, cumulative_garbage = 3\<rparr>)] [''amy'' \<mapsto> 5])) ''amy'' \<noteq> 3"
  by (simp add: process_incoming_garbage_def ledger_get_def)

text \<open>
  Claim C7, amended: when a scanned alive peer state carries a counter strictly smaller
  than the ledger value for that peer, processing the scan credits no garbage to that peer
  (every amount returned is positive and belongs to another peer) and leaves the ledger
  value for the peer unchanged.
\<close>

theorem counter_decrease_ignored:
  assumes "scan_of_alive p scan" and "counter p scan < ledger_get led p"
  shows "(\<forall>g\<in>set (fst (process_incoming_garbage scan led)). snd g \<noteq> p \<and> 0 < fst g)
         \<and> snd (process_incoming_garbage scan led) p = led p"
proof -
  from assms obtain st where d: "distinct (map fst scan)" and m: "map_of scan p = Some st"
    and al: "\<not> is_dead st" and c: "cumulative_garbage st < ledger_get led p"
    by (auto simp add: scan_of_alive_def counter_def split: option.splits)
  let ?gl = "fst (process_incoming_garbage scan led)"
  have pos: "\<forall>g\<in>set ?gl. 0 < fst g"
    unfolding process_incoming_garbage_def by (rule process_loop_positive) simp
  from process_loop_peer [OF d m al, of led "[]"] c
  have l: "snd (process_incoming_garbage scan led) p = led p" and z: "credited p ?gl = 0"
    by (simp_all add: process_incoming_garbage_def)
  have "snd g \<noteq> p" if "g \<in> set ?gl" for g
    using credited_positive [OF pos that, of p] z by auto
  with pos l show ?thesis by blast
qed

theorem counter_decrease_ignored_witness:
  "process_incoming_garbage [(''amy'', \<lparr>is_dead = False, cumulative_garbage = 3\<rparr>)] [''amy'' \<mapsto> 5]
     = ([], [''amy'' \<mapsto> 5])
   \<and> scan_of_alive ''amy'' [(''amy'', \<lparr>is_dead = False, cumulative_garbage = 3\<rparr>)]"
  using counter_decrease_ignored [of "''amy''" "[(''amy'', \<lparr>is_dead = False, cumulative_garbage = 3\<rparr>)]"
      "[''amy'' \<mapsto> 5]"]
  by (simp add: process_incoming_garbage_def ledger_get_def scan_of_alive_def counter_def)

section \<open>Properties of the spin classifier\<close>










section \<open>Properties of the ghost projection\<close>

lemma collide_iff:
  "collide board shape x y \<longleftrightarrow>
     (\<exists>r < length shape. \<exists>c < length (shape ! 0). collide_cell board shape x y r c)"
  by (simp add: collide_def list_ex_iff Bex_def)










section \<open>Properties of the board\<close>

lemma valid_board_iff:
  "valid_board b \<longleftrightarrow>
     length b = 20 \<and> (\<forall>row\<in>set b. length row = 10 \<and> (\<forall>v\<in>set row. 0 \<le> v \<and> v \<le> 8))"
  by (auto simp add: valid_board_def list_all_iff WIDTH_def HEIGHT_def)

lemma valid_new_board: "valid_board new_board"
  by (simp add: valid_board_iff new_board_def WIDTH_def HEIGHT_def)

lemma set_cell_valid:
  assumes "valid_board b" and "0 \<le> row" and "row < HEIGHT" and "0 \<le> col" and "col < WIDTH"
    and "0 \<le> v" and "v \<le> 8"
  shows "\<exists>b'. set_cell b row col v = Inr b' \<and> valid_board b'"
proof -
  from assms have len: "length b = 20" and r: "nat row < length b"
    by (simp_all add: valid_board_iff HEIGHT_def)
  from assms r have lr: "length (b ! nat row) = 10"
    by (simp add: valid_board_iff)
  have eq: "set_cell b row col v = Inr (b[nat row := (b ! nat row)[nat col := v]])"
    using assms len lr
    by (simp add: set_cell_def py_index_def bind_err_def HEIGHT_def WIDTH_def)
  have "valid_board (b[nat row := (b ! nat row)[nat col := v]])"
    unfolding valid_board_iff
  proof (intro conjI ballI)
    show "length (b[nat row := (b ! nat row)[nat col := v]]) = 20" using len by simp
  next
    fix rw assume "rw \<in> set (b[nat row := (b ! nat row)[nat col := v]])"
    then have "rw \<in> set b \<or> rw = (b ! nat row)[nat col := v]"
      using set_update_subset_insert [of b "nat row" "(b ! nat row)[nat col := v]"] by auto
    then show "length rw = 10"
      using assms(1) lr by (auto simp add: valid_board_iff)
  next
    fix rw w assume rw: "rw \<in> set (b[nat row := (b ! nat row)[nat col := v]])" and w: "w \<in> set rw"
    from rw have "rw \<in> set b \<or> rw = (b ! nat row)[nat col := v]"
      using set_update_subset_insert [of b "nat row" "(b ! nat row)[nat col := v]"] by auto
    then show "0 \<le> w"
    proof
      assume "rw \<in> set b" with assms(1) w show ?thesis by (auto simp add: valid_board_iff)
    next
      assume e: "rw = (b ! nat row)[nat col := v]"
      with w have "w \<in> set (b ! nat row) \<or> w = v"
        using set_update_subset_insert [of "b ! nat row" "nat col" v] by auto
      moreover have "b ! nat row \<in> set b" using r by simp
      ultimately show ?thesis using assms(1,6) by (auto simp add: valid_board_iff)
    qed
    from \<open>rw \<in> set b \<or> rw = (b ! nat row)[nat col := v]\<close> show "w \<le> 8"
    proof
      assume "rw \<in> set b" with assms(1) w show ?thesis by (auto simp add: valid_board_iff)
    next
      assume e: "rw = (b ! nat row)[nat col := v]"
      with w have "w \<in> set (b ! nat row) \<or> w = v"
        using set_update_subset_insert [of "b ! nat row" "nat col" v] by auto
      moreover have "b ! nat row \<in> set b" using r by simp
      ultimately show ?thesis using assms(1,7) by (auto simp add: valid_board_iff)
    qed
  qed
  with eq show ?thesis by simp
qed

lemma lock_loop_valid:
  assumes "0 \<le> color" and "color \<le> 8"
  shows "valid_board b \<Longrightarrow>
    \<forall>(r, c)\<in>set ps. truthy (shape ! r ! c) \<and> 0 \<le> y + int r \<longrightarrow>
       0 \<le> x + int c \<and> x + int c < WIDTH \<and> y + int r < HEIGHT \<Longrightarrow>
    \<exists>b'. lock_loop b shape x y color ps = Inr b' \<and> valid_board b'"
proof (induction ps arbitrary: b)
  case Nil
  then show ?case by simp
next
  case (Cons p ps)
  obtain r c where p: "p = (r, c)" by (cases p)
  from Cons.prems have rest: "\<forall>(r, c)\<in>set ps. truthy (shape ! r ! c) \<and> 0 \<le> y + int r \<longrightarrow>
       0 \<le> x + int c \<and> x + int c < WIDTH \<and> y + int r < HEIGHT" by simp
  show ?case
  proof (cases "truthy (shape ! r ! c) \<and> y + int r \<ge> 0")
    case True
    with Cons.prems p have "0 \<le> x + int c" "x + int c < WIDTH" "y + int r < HEIGHT" "0 \<le> y + int r"
      by auto
    from set_cell_valid [OF Cons.prems(1) this(4,3,1,2) assms]
    obtain b1 where b1: "set_cell b (y + int r) (x + int c) color = Inr b1" "valid_board b1" by blast
    from Cons.IH [OF b1(2) rest] True p b1(1) show ?thesis
      by (simp add: bind_err_def)
  next
    case False
    with Cons.IH [OF Cons.prems(1) rest] p show ?thesis by auto
  qed
qed

lemma shape_cells_iff:
  "(r, c) \<in> set (shape_cells shape) \<longleftrightarrow> r < length shape \<and> c < length (shape ! 0)"
  by (auto simp add: shape_cells_def image_iff)

lemma not_collide_cells:
  assumes "\<not> collide b shape x y"
  shows "\<forall>(r, c)\<in>set (shape_cells shape). truthy (shape ! r ! c) \<and> 0 \<le> y + int r \<longrightarrow>
       0 \<le> x + int c \<and> x + int c < WIDTH \<and> y + int r < HEIGHT"
proof (clarify)
  fix r c
  assume rc: "(r, c) \<in> set (shape_cells shape)" and t: "truthy (shape ! r ! c)"
  from rc have "r < length shape" "c < length (shape ! 0)" by (simp_all add: shape_cells_iff)
  with assms have "\<not> collide_cell b shape x y r c" by (auto simp add: collide_iff)
  with t show "0 \<le> x + int c \<and> x + int c < WIDTH \<and> y + int r < HEIGHT"
    by (auto simp add: collide_cell_def Let_def)
qed

lemma lock_valid:
  assumes "valid_board b" and "\<not> collide b shape x y" and "0 \<le> color" and "color \<le> 8"
  shows "\<exists>b'. lock b shape x y color = Inr b' \<and> valid_board b'"
  unfolding lock_def
  using lock_loop_valid [OF assms(3,4) assms(1) not_collide_cells [OF assms(2)]] .

lemma clear_lines_valid:
  assumes "valid_board b"
  shows "valid_board (fst (clear_lines b))"
proof -
  have "length (filter (\<lambda>row. \<not> list_all truthy row) b) \<le> length b" by simp
  with assms show ?thesis
    by (auto simp add: valid_board_iff clear_lines_def Let_def WIDTH_def HEIGHT_def)
qed

lemma garbage_line_valid:
  "length (garbage_line h) = 10 \<and> (\<forall>v\<in>set (garbage_line h). 0 \<le> v \<and> v \<le> 8)"
  by (auto simp add: garbage_line_def WIDTH_def)

lemma add_garbage_loop_valid:
  "valid_board b \<Longrightarrow> \<exists>b'. add_garbage_loop k hole i b = Inr b' \<and> valid_board b'"
proof (induction k arbitrary: b i)
  case 0
  then show ?case by simp
next
  case (Suc k)
  then obtain row rest where b: "b = row # rest" by (cases b) (auto simp add: valid_board_iff)
  with Suc.prems have "valid_board (rest @ [garbage_line (hole i)])"
    using garbage_line_valid [of "hole i"] by (auto simp add: valid_board_iff)
  from Suc.IH [OF this] b show ?case by simp
qed

lemma add_garbage_valid:
  "valid_board b \<Longrightarrow> \<exists>b'. add_garbage b n hole = Inr b' \<and> valid_board b'"
  unfolding add_garbage_def by (rule add_garbage_loop_valid)

lemma reachable_valid: "reachable b \<Longrightarrow> valid_board b"
proof (induction rule: reachable.induct)
  case reach_new
  show ?case by (rule valid_new_board)
next
  case (reach_lock b shape x y color b')
  from reach_lock.hyps(3) have "0 \<le> color" by simp
  from lock_valid [OF reach_lock.IH reach_lock.hyps(2) this reach_lock.hyps(4)] reach_lock.hyps(5)
  show ?case by auto
next
  case (reach_clear b)
  then show ?case by (simp add: clear_lines_valid)
next
  case (reach_garbage b n hole b')
  with add_garbage_valid [OF reach_garbage.IH, of n hole] show ?case by auto
qed

text \<open>On a reachable board the operations do not raise.\<close>

lemma reachable_operations_succeed:
  assumes "reachable b"
  shows "\<not> collide b shape x y \<Longrightarrow> 1 \<le> color \<Longrightarrow> color \<le> 8 \<Longrightarrow>
           \<exists>b'. lock b shape x y color = Inr b'"
    and "\<exists>b'. add_garbage b n hole = Inr b'"
proof -
  note v = reachable_valid [OF assms]
  show "\<exists>b'. lock b shape x y color = Inr b'"
    if "\<not> collide b shape x y" "1 \<le> color" "color \<le> 8"
    using lock_valid [OF v that(1) _ that(3)] that(2) by auto
  show "\<exists>b'. add_garbage b n hole = Inr b'"
    using add_garbage_valid [OF v] by blast
qed

text \<open>
  Claim C9: starting from the empty board, after any sequence of the board operations
  (lock at a non-colliding position with a colour in 1..8, clear_lines, add_garbage of
  any \<open>n \<ge> 0\<close>) the board has exactly 20 rows of exactly 10 cells and every cell value
  lies in 0..8.
\<close>

theorem board_invariant:
  "reachable b \<Longrightarrow>
     length b = 20 \<and> (\<forall>row\<in>set b. length row = 10 \<and> (\<forall>v\<in>set row. 0 \<le> v \<and> v \<le> 8))"
  using reachable_valid [of b] by (simp add: valid_board_iff)


theorem board_invariant_witness:
  "\<exists>b1 b2. lock new_board [[1, 1], [1, 1]] 4 18 2 = Inr b1
      \<and> add_garbage (fst (clear_lines b1)) 3 (\<lambda>i. 5) = Inr b2
      \<and> reachable b2
      \<and> length b2 = 20
      \<and> list_all (\<lambda>row. length row = 10 \<and> list_all (\<lambda>v. 0 \<le> v \<and> v \<le> 8) row) b2"
proof -
  have nc: "\<not> collide new_board [[1, 1], [1, 1]] 4 18"
    by (simp add: collide_def collide_cell_def truthy_def numeral_2_eq_2 new_board_def WIDTH_def
          HEIGHT_def Let_def)
  from lock_valid [OF valid_new_board nc, of 2]
  obtain b1 where b1: "lock new_board [[1, 1], [1, 1]] 4 18 2 = Inr b1" by auto
  have r1: "reachable b1"
    by (rule reach_lock [OF reach_new nc _ _ b1]) simp_all
  then have r1': "reachable (fst (clear_lines b1))" by (rule reach_clear)
  from add_garbage_valid [OF reachable_valid [OF r1'], of 3 "\<lambda>i. 5"]
  obtain b2 where b2: "add_garbage (fst (clear_lines b1)) 3 (\<lambda>i. 5) = Inr b2" by auto
  have r2: "reachable b2"
    by (rule reach_garbage [OF r1' _ b2]) simp
  from board_invariant [OF r2] b1 b2 r2 show ?thesis by (auto simp add: list_all_iff)
qed

section \<open>Properties of the bag, spawn and hold\<close>

lemma tetromino_keys: "map fst TETROMINOES = PIECE_NAMES"
  by (simp add: TETROMINOES_def PIECE_NAMES_def)

lemma refill_bag_mset: "is_shuffle shuffle \<Longrightarrow> mset (refill_bag shuffle k) = mset PIECE_NAMES"
  by (simp add: is_shuffle_def refill_bag_def tetromino_keys)

lemma refill_bag_set: "is_shuffle shuffle \<Longrightarrow> set (refill_bag shuffle k) = set PIECE_NAMES"
  using mset_eq_setD [OF refill_bag_mset [of shuffle k]] .

lemma refill_bag_length: "is_shuffle shuffle \<Longrightarrow> length (refill_bag shuffle k) = 7"
  using mset_eq_length [OF refill_bag_mset [of shuffle k]] by (simp add: PIECE_NAMES_def)

lemma refill_bag_nonempty: "is_shuffle shuffle \<Longrightarrow> refill_bag shuffle k \<noteq> []"
  using refill_bag_length [of shuffle k] by auto

lemma bag_stream_Suc: "bag_stream shuffle (Suc k) = bag_stream shuffle k @ refill_bag shuffle k"
  by (simp add: bag_stream_def)

lemma bag_stream_set: "is_shuffle shuffle \<Longrightarrow> set (bag_stream shuffle k) \<subseteq> set PIECE_NAMES"
  by (induction k) (simp_all add: bag_stream_Suc refill_bag_set, simp add: bag_stream_def)

lemma piece_facts:
  assumes "name \<in> set PIECE_NAMES"
  shows "\<exists>row0 rest col. tetromino name = Inr (row0 # rest) \<and> color_of name = Inr col \<and>
           WIDTH div 2 - int (length row0) div 2 = (if name = ''I'' then 3 else 4)"
proof -
  from assms consider "name = ''I''" | "name = ''O''" | "name = ''T''" | "name = ''S''"
    | "name = ''Z''" | "name = ''J''" | "name = ''L''"
    by (auto simp add: PIECE_NAMES_def)
  then show ?thesis
    by cases (simp_all add: tetromino_def TETROMINOES_def color_of_def COLORS_def WIDTH_def)
qed


lemma game_inv_bag_names:
  assumes "is_shuffle shuffle" and "game_inv shuffle g log"
  shows "set (piece_bag g) \<subseteq> set PIECE_NAMES"
proof -
  from assms(2) have "set (piece_bag g) \<subseteq> set (bag_stream shuffle (shuffle_count g))"
    by (metis game_inv_def set_append Un_upper2)
  with bag_stream_set [OF assms(1)] show ?thesis by blast
qed

lemma take_piece_inv:
  assumes sh: "is_shuffle shuffle" and inv: "game_inv shuffle g log"
  shows "\<exists>g'. take_piece shuffle g = Inr g' \<and> game_inv shuffle g' (log @ [current_piece_name g']) \<and>
           tetromino (current_piece_name g') = Inr (cur_shape g') \<and>
           held_shape g' = held_shape g \<and> held_piece_name g' = held_piece_name g"
proof -
  from inv obtain name rest where bag: "piece_bag g = name # rest"
    by (cases "piece_bag g") (auto simp add: game_inv_def)
  from game_inv_bag_names [OF sh inv] bag have nm: "name \<in> set PIECE_NAMES"
    and rs: "set rest \<subseteq> set PIECE_NAMES" by auto
  from piece_facts [OF nm] obtain shp where shp: "tetromino name = Inr shp" by blast
  from inv bag have st: "(log @ [name]) @ rest = bag_stream shuffle (shuffle_count g)"
    and held: "held_shape g = None \<or> held_piece_name g \<in> Some ` set PIECE_NAMES"
    by (simp_all add: game_inv_def)
  have r0: "refill_if_empty shuffle g = g" using bag by (simp add: refill_if_empty_def)
  let ?g1 = "g\<lparr>piece_bag := rest, current_piece_name := name, current_rotation := 0, cur_shape := shp\<rparr>"
  show ?thesis
  proof (cases "rest = []")
    case True
    let ?bag = "refill_bag shuffle (shuffle_count g)"
    from refill_bag_nonempty [OF sh] obtain nxt more where nx: "?bag = nxt # more"
      by (cases ?bag) auto
    have "nxt \<in> set PIECE_NAMES" using refill_bag_set [OF sh, of "shuffle_count g"] nx by auto
    from piece_facts [OF this] obtain nsh where nsh: "tetromino nxt = Inr nsh" by blast
    have tp: "take_piece shuffle g =
        Inr (?g1\<lparr>piece_bag := ?bag, shuffle_count := Suc (shuffle_count g),
                  next_piece_name := nxt, next_shape := nsh\<rparr>)"
      using bag shp True nx nsh
      by (simp add: take_piece_def r0 Let_def bind_err_def refill_if_empty_def)
    show ?thesis
      unfolding tp using st True nm held nx
      by (simp add: game_inv_def bag_stream_Suc shp)
  next
    case False
    then obtain nxt more where nx: "rest = nxt # more" by (cases rest) auto
    with rs have "nxt \<in> set PIECE_NAMES" by auto
    from piece_facts [OF this] obtain nsh where nsh: "tetromino nxt = Inr nsh" by blast
    have tp: "take_piece shuffle g = Inr (?g1\<lparr>next_piece_name := nxt, next_shape := nsh\<rparr>)"
      using bag shp nx nsh
      by (simp add: take_piece_def r0 Let_def bind_err_def refill_if_empty_def)
    show ?thesis
      unfolding tp using st nm held nx
      by (simp add: game_inv_def shp)
  qed
qed


lemma place_piece_spawn:
  assumes "current_piece_name g \<in> set PIECE_NAMES"
    and "tetromino (current_piece_name g) = Inr (cur_shape g)"
  shows "\<exists>g'. place_piece b g = Inr g' \<and> at_spawn_position g' \<and>
           piece_bag g' = piece_bag g \<and> shuffle_count g' = shuffle_count g \<and>
           current_piece_name g' = current_piece_name g \<and> cur_shape g' = cur_shape g \<and>
           held_shape g' = held_shape g \<and> held_piece_name g' = held_piece_name g \<and>
           can_hold g' = b"
proof -
  from piece_facts [OF assms(1)] assms(2) obtain row0 rest col
    where f: "cur_shape g = row0 # rest" "tetromino (current_piece_name g) = Inr (row0 # rest)"
      "color_of (current_piece_name g) = Inr col"
      "WIDTH div 2 - int (length row0) div 2 = (if current_piece_name g = ''I'' then 3 else 4)"
    by auto
  show ?thesis
    using f assms(1)
    by (simp add: place_piece_def bind_err_def spawn_x_def at_spawn_position_def)
qed

lemma game_inv_fields:
  assumes "piece_bag g' = piece_bag g" and "shuffle_count g' = shuffle_count g"
    and "current_piece_name g' = current_piece_name g"
    and "held_shape g' = held_shape g" and "held_piece_name g' = held_piece_name g"
  shows "game_inv shuffle g' log = game_inv shuffle g log"
  using assms by (simp add: game_inv_def)

lemma spawn_new_piece_inv:
  assumes sh: "is_shuffle shuffle" and inv: "game_inv shuffle g log"
  shows "\<exists>ok g'. spawn_new_piece shuffle board g = Inr (ok, g') \<and> at_spawn_position g' \<and>
           game_inv shuffle g' (log @ [current_piece_name g'])"
proof -
  from take_piece_inv [OF sh inv] obtain g1 where g1: "take_piece shuffle g = Inr g1"
    "game_inv shuffle g1 (log @ [current_piece_name g1])"
    "tetromino (current_piece_name g1) = Inr (cur_shape g1)" by blast
  from g1(2) have nm: "current_piece_name g1 \<in> set PIECE_NAMES" by (simp add: game_inv_def)
  from place_piece_spawn [OF nm g1(3), of True] obtain g2 where g2: "place_piece True g1 = Inr g2"
    "at_spawn_position g2" "piece_bag g2 = piece_bag g1" "shuffle_count g2 = shuffle_count g1"
    "current_piece_name g2 = current_piece_name g1"
    "held_shape g2 = held_shape g1" "held_piece_name g2 = held_piece_name g1" by blast
  have "game_inv shuffle g2 (log @ [current_piece_name g2])"
    using game_inv_fields [OF g2(3-7), of shuffle] g1(2) g2(5) by simp
  with g1(1) g2(1,2) show ?thesis
    by (simp add: spawn_new_piece_def bind_err_def)
qed

lemma hold_inv:
  assumes sh: "is_shuffle shuffle" and inv: "game_inv shuffle g log" and ch: "can_hold g"
  shows "\<exists>g'. hold shuffle g = Inr g' \<and> at_spawn_position g' \<and>
           game_inv shuffle g'
             (if held_shape g = None then log @ [current_piece_name g'] else log)"
proof (cases "held_shape g")
  case None
  from inv have nm: "current_piece_name g \<in> set PIECE_NAMES" by (simp add: game_inv_def)
  from piece_facts [OF nm] obtain hs where hs: "tetromino (current_piece_name g) = Inr hs" by blast
  let ?g0 = "g\<lparr>held_shape := Some hs, held_piece_name := Some (current_piece_name g)\<rparr>"
  have inv0: "game_inv shuffle ?g0 log" using inv nm by (simp add: game_inv_def)
  from take_piece_inv [OF sh inv0] obtain g1 where g1: "take_piece shuffle ?g0 = Inr g1"
    "game_inv shuffle g1 (log @ [current_piece_name g1])"
    "tetromino (current_piece_name g1) = Inr (cur_shape g1)" by blast
  from g1(2) have nm1: "current_piece_name g1 \<in> set PIECE_NAMES" by (simp add: game_inv_def)
  from place_piece_spawn [OF nm1 g1(3), of False] obtain g2 where g2: "place_piece False g1 = Inr g2"
    "at_spawn_position g2" "piece_bag g2 = piece_bag g1" "shuffle_count g2 = shuffle_count g1"
    "current_piece_name g2 = current_piece_name g1"
    "held_shape g2 = held_shape g1" "held_piece_name g2 = held_piece_name g1" by blast
  have "game_inv shuffle g2 (log @ [current_piece_name g2])"
    using game_inv_fields [OF g2(3-7), of shuffle] g1(2) g2(5) by simp
  with None ch hs g1(1) g2(1,2) show ?thesis
    by (simp add: hold_def bind_err_def)
next
  case (Some hsh)
  with inv obtain h where h: "held_piece_name g = Some h" "h \<in> set PIECE_NAMES"
    by (auto simp add: game_inv_def)
  from inv have nm: "current_piece_name g \<in> set PIECE_NAMES" by (simp add: game_inv_def)
  from piece_facts [OF nm] obtain hs where hs: "tetromino (current_piece_name g) = Inr hs" by blast
  from piece_facts [OF h(2)] obtain shp where shp: "tetromino h = Inr shp" by blast
  let ?g1 = "g\<lparr>cur_shape := shp, held_shape := Some hs, current_piece_name := h,
               held_piece_name := Some (current_piece_name g), current_rotation := 0\<rparr>"
  have inv1: "game_inv shuffle ?g1 log" using inv nm h by (simp add: game_inv_def)
  have "current_piece_name ?g1 \<in> set PIECE_NAMES" "tetromino (current_piece_name ?g1) = Inr (cur_shape ?g1)"
    using h shp by simp_all
  from place_piece_spawn [OF this, of False] obtain g2 where g2: "place_piece False ?g1 = Inr g2"
    "at_spawn_position g2" "piece_bag g2 = piece_bag ?g1" "shuffle_count g2 = shuffle_count ?g1"
    "current_piece_name g2 = current_piece_name ?g1"
    "held_shape g2 = held_shape ?g1" "held_piece_name g2 = held_piece_name ?g1" by blast
  have "game_inv shuffle g2 log"
    using game_inv_fields [OF g2(3-7), of shuffle] inv1 by simp
  with Some ch h hs shp g2(1,2) show ?thesis
    by (simp add: hold_def bind_err_def)
qed


lemma shift_rows_pieces:
  assumes "name \<in> set PIECE_NAMES"
  shows "\<exists>row0 rest trow trest y'. shift_rows (row0 # rest) 0 = Some (Inr (trow # trest, y')) \<and>
           tetromino name = Inr (row0 # rest) \<and> length trow = length row0"
proof -
  from assms consider "name = ''I''" | "name = ''O''" | "name = ''T''" | "name = ''S''"
    | "name = ''Z''" | "name = ''J''" | "name = ''L''"
    by (auto simp add: PIECE_NAMES_def)
  then show ?thesis
    by cases (simp_all add: tetromino_def TETROMINOES_def shift_rows.simps truthy_def)
qed

lemma start_game_inv:
  assumes sh: "is_shuffle shuffle"
  shows "\<exists>g. start_game shuffle = Some (Inr g) \<and> at_spawn_position g \<and>
           game_inv shuffle g [current_piece_name g] \<and> can_hold g"
proof -
  let ?bag = "refill_bag shuffle 0"
  from refill_bag_length [OF sh, of 0] obtain name nxt more where bag: "?bag = name # nxt # more"
    by (cases ?bag; cases "tl ?bag") auto
  from refill_bag_set [OF sh, of 0] bag have nm: "name \<in> set PIECE_NAMES" "nxt \<in> set PIECE_NAMES"
    by auto
  from shift_rows_pieces [OF nm(1)] obtain row0 rest trow trest y'
    where sr: "shift_rows (row0 # rest) 0 = Some (Inr (trow # trest, y'))"
      "tetromino name = Inr (row0 # rest)" "length trow = length row0" by blast
  from piece_facts [OF nm(1)] sr(2) obtain col where c: "color_of name = Inr col"
    "WIDTH div 2 - int (length row0) div 2 = (if name = ''I'' then 3 else 4)" by auto
  from piece_facts [OF nm(2)] obtain nsh where nsh: "tetromino nxt = Inr nsh" by blast
  have "bag_stream shuffle 1 = name # nxt # more"
    using bag by (simp add: bag_stream_def)
  then show ?thesis
    using bag nm sr c nsh
    by (simp add: start_game_def spawn_x_def at_spawn_position_def game_inv_def)
qed

lemma play_inv:
  assumes sh: "is_shuffle shuffle"
  shows "game_inv shuffle g log \<Longrightarrow>
         \<exists>g' log'. play shuffle evs g log = Inr (g', log') \<and> game_inv shuffle g' log'"
proof (induction evs arbitrary: g log)
  case Nil
  then show ?case by simp
next
  case (Cons ev evs)
  show ?case
  proof (cases ev)
    case (Lock_spawn board)
    from spawn_new_piece_inv [OF sh Cons.prems, of board] obtain ok g1
      where g1: "spawn_new_piece shuffle board g = Inr (ok, g1)"
        "game_inv shuffle g1 (log @ [current_piece_name g1])" by blast
    from Cons.IH [OF g1(2)] g1 Lock_spawn show ?thesis by auto
  next
    case Hold_key
    show ?thesis
    proof (cases "can_hold g")
      case True
      from hold_inv [OF sh Cons.prems True] obtain g1 where g1: "hold shuffle g = Inr g1"
        "game_inv shuffle g1 (if held_shape g = None then log @ [current_piece_name g1] else log)"
        by blast
      from Cons.IH [OF g1(2)] g1(1) Hold_key True show ?thesis by auto
    next
      case False
      then have "hold shuffle g = Inr g" by (simp add: hold_def)
      with Cons.IH [OF Cons.prems] Hold_key False show ?thesis by auto
    qed
  qed
qed

lemma bag_stream_length: "is_shuffle shuffle \<Longrightarrow> length (bag_stream shuffle k) = 7 * k"
  by (induction k) (simp_all add: bag_stream_Suc refill_bag_length, simp add: bag_stream_def)

lemma bag_stream_window:
  assumes sh: "is_shuffle shuffle"
  shows "j < k \<Longrightarrow> take 7 (drop (7 * j) (bag_stream shuffle k)) = refill_bag shuffle j"
proof (induction k)
  case 0
  then show ?case by simp
next
  case (Suc k)
  show ?case
  proof (cases "j = k")
    case True
    then show ?thesis
      by (simp add: bag_stream_Suc bag_stream_length [OF sh] refill_bag_length [OF sh])
  next
    case False
    with Suc.prems have jk: "j < k" by simp
    then have "7 * j + 7 \<le> 7 * k" by simp
    with Suc.IH [OF jk] show ?thesis
      by (simp add: bag_stream_Suc bag_stream_length [OF sh])
  qed
qed

lemma game_inv_window:
  assumes sh: "is_shuffle shuffle" and inv: "game_inv shuffle g log" and w: "7 * j + 7 \<le> length log"
  shows "take 7 (drop (7 * j) log) = refill_bag shuffle j"
proof -
  from inv have st: "log @ piece_bag g = bag_stream shuffle (shuffle_count g)"
    by (simp add: game_inv_def)
  then have "length log \<le> 7 * shuffle_count g"
    using bag_stream_length [OF sh, of "shuffle_count g"] by (metis length_append le_add1)
  with w have jk: "j < shuffle_count g" by simp
  have "take 7 (drop (7 * j) log) = take 7 (drop (7 * j) (log @ piece_bag g))"
    using w by simp
  with st bag_stream_window [OF sh jk] show ?thesis by simp
qed


lemmas game_eval = start_game_def refill_bag_def TETROMINOES_def tetromino_def color_of_def
  COLORS_def spawn_x_def shift_rows.simps truthy_def WIDTH_def HEIGHT_def game_log_def
  spawn_new_piece_def take_piece_def refill_if_empty_def place_piece_def bind_err_def
  collide_def collide_cell_def new_board_def Let_def hold_def

text \<open>
  Claim C3, as stated, fails for the pieces with a shape matrix of width 3: a T piece is
  spawned at \<open>x = 4\<close>, and \<open>(WIDTH - 3) div 2 = 3\<close>.
\<close>

theorem spawn_position_counterexample:
  "map_option (map_sum id (\<lambda>g. (current_piece_name g, cur_shape g, piece_x g,
       (WIDTH - int (length (cur_shape g ! 0))) div 2))) (start_game (\<lambda>k. rotate 2))
   = Some (Inr (''T'', [[0, 1, 0], [1, 1, 1], [0, 0, 0]], 4, 3))"
  by (simp add: game_eval rotate_def numeral_2_eq_2)

text \<open>
  Claim C3, amended: on every spawn of an active piece (the first spawn, the spawn after a
  lock, and the re-spawn after a hold) the piece, one of the seven, is placed at
  \<open>x = WIDTH div 2 - shape_width div 2\<close> (both divisions rounded down, \<open>shape_width\<close>
  the width of the piece's shape matrix), which is 3 for I and 4 for O, T, S, Z, J and L,
  and at \<open>y = -1\<close>.
\<close>

theorem spawn_position:
  assumes "is_shuffle shuffle" and "game_inv shuffle g log"
  shows "(\<exists>g0. start_game shuffle = Some (Inr g0) \<and> at_spawn_position g0)
       \<and> (\<exists>ok g'. spawn_new_piece shuffle board g = Inr (ok, g') \<and> at_spawn_position g')
       \<and> (can_hold g \<longrightarrow> (\<exists>g'. hold shuffle g = Inr g' \<and> at_spawn_position g'))"
  using start_game_inv [OF assms(1)] spawn_new_piece_inv [OF assms, of board] hold_inv [OF assms]
  by blast

theorem spawn_position_witness:
  "is_shuffle (\<lambda>k xs. xs)
   \<and> (\<exists>g0. start_game (\<lambda>k xs. xs) = Some (Inr g0)
         \<and> game_inv (\<lambda>k xs. xs) g0 [current_piece_name g0] \<and> can_hold g0
         \<and> (\<exists>ok g1. spawn_new_piece (\<lambda>k xs. xs) new_board g0 = Inr (ok, g1) \<and> at_spawn_position g1)
         \<and> (\<exists>g2. hold (\<lambda>k xs. xs) g0 = Inr g2 \<and> at_spawn_position g2))"
proof -
  have sh: "is_shuffle (\<lambda>k xs. xs)" by (simp add: is_shuffle_def)
  from start_game_inv [OF sh] obtain g0 where g0: "start_game (\<lambda>k xs. xs) = Some (Inr g0)"
    "game_inv (\<lambda>k xs. xs) g0 [current_piece_name g0]" "can_hold g0" by blast
  from spawn_position [OF sh g0(2), of new_board] sh g0 show ?thesis by blast
qed

text \<open>
  Claim C4, as stated, fails for a window that straddles two bags: when a bag in the
  order I, O, T, S, Z, J, L is followed by a bag in the reverse order, the seven spawns
  after the first one contain L twice (and I not at all).
\<close>

theorem seven_bag_counterexample:
  "is_shuffle (\<lambda>k xs. if even k then xs else rev xs)
   \<and> map_option (map_sum id (\<lambda>(g, log). take 7 (drop 1 log)))
        (game_log (\<lambda>k xs. if even k then xs else rev xs) (replicate 7 (Lock_spawn new_board)))
      = Some (Inr [''O'', ''T'', ''S'', ''Z'', ''J'', ''L'', ''L''])"
proof -
  have "is_shuffle (\<lambda>k xs. if even k then xs else rev xs)" by (simp add: is_shuffle_def)
  moreover have "map_option (map_sum id (\<lambda>(g, log). take 7 (drop 1 log)))
        (game_log (\<lambda>k xs. if even k then xs else rev xs) (replicate 7 (Lock_spawn new_board)))
      = Some (Inr [''O'', ''T'', ''S'', ''Z'', ''J'', ''L'', ''L''])"
    by (simp add: game_eval numeral_eq_Suc upt_rec)
  ultimately show ?thesis by simp
qed

lemma count_list_piece_names:
  "p \<in> set PIECE_NAMES \<Longrightarrow> count_list PIECE_NAMES p = 1"
  by (auto simp add: PIECE_NAMES_def)

text \<open>
  Claim C4, amended: in every game, whatever its events, the pieces taken from the front
  of the bag (by spawns and by holds with an empty hold slot), counted from the first
  spawn, fall into consecutive groups of seven, and in each complete group (spawns
  \<open>7 j + 1\<close> to \<open>7 j + 7\<close>) each of the seven piece names appears exactly once.
\<close>

theorem seven_bag_fairness:
  assumes "is_shuffle shuffle"
  shows "\<exists>g log. game_log shuffle evs = Some (Inr (g, log)) \<and>
           (\<forall>j. 7 * j + 7 \<le> length log \<longrightarrow>
                (\<forall>p\<in>set PIECE_NAMES. count_list (take 7 (drop (7 * j) log)) p = 1))"
proof -
  from start_game_inv [OF assms] obtain g0 where g0: "start_game shuffle = Some (Inr g0)"
    "game_inv shuffle g0 [current_piece_name g0]" by blast
  from play_inv [OF assms g0(2), of evs] obtain g log
    where pl: "play shuffle evs g0 [current_piece_name g0] = Inr (g, log)"
      and inv: "game_inv shuffle g log" by blast
  have "count_list (take 7 (drop (7 * j) log)) p = 1"
    if "7 * j + 7 \<le> length log" "p \<in> set PIECE_NAMES" for j p
  proof -
    have "count_list (take 7 (drop (7 * j) log)) p = count (mset (refill_bag shuffle j)) p"
      using game_inv_window [OF assms inv that(1)] by (simp add: count_mset)
    also have "\<dots> = count_list PIECE_NAMES p"
      by (simp add: refill_bag_mset [OF assms] count_mset)
    finally show ?thesis using count_list_piece_names [OF that(2)] by simp
  qed
  with g0(1) pl show ?thesis by (simp add: game_log_def)
qed

theorem seven_bag_fairness_witness:
  "is_shuffle (\<lambda>k xs. if even k then xs else rev xs)
   \<and> (\<exists>g log. game_log (\<lambda>k xs. if even k then xs else rev xs)
                    (replicate 7 (Lock_spawn new_board)) = Some (Inr (g, log))
         \<and> length log = 8
         \<and> list_all (\<lambda>p. count_list (take 7 log) p = 1) PIECE_NAMES)"
proof -
  let ?S = "\<lambda>(k::nat) xs::string list. if even k then xs else rev xs"
  have sh: "is_shuffle ?S" by (simp add: is_shuffle_def)
  from seven_bag_fairness [OF sh, of "replicate 7 (Lock_spawn new_board)"] obtain g log
    where gl: "game_log ?S (replicate 7 (Lock_spawn new_board)) = Some (Inr (g, log))"
      and w: "\<forall>j. 7 * j + 7 \<le> length log \<longrightarrow>
                (\<forall>p\<in>set PIECE_NAMES. count_list (take 7 (drop (7 * j) log)) p = 1)" by blast
  have "map_option (map_sum id (\<lambda>(g, log). length log))
          (game_log ?S (replicate 7 (Lock_spawn new_board))) = Some (Inr 8)"
    by (simp add: game_eval numeral_eq_Suc upt_rec)
  with gl have len: "length log = 8" by simp
  with w [rule_format, of 0] have "\<forall>p\<in>set PIECE_NAMES. count_list (take 7 log) p = 1" by simp
  with sh gl len show ?thesis by (simp add: list_all_iff)
qed

section \<open>Properties of the state codec\<close>

lemma bit_at_div: "bit_at v i = (v div 2 ^ i) mod 2"
  by (simp add: bit_at_def drop_bit_eq_div and_one_eq)

lemma bit_at_01: "bit_at v i = 0 \<or> bit_at v i = 1"
  unfolding bit_at_div by presburger

lemma bit_at_of_bool: "bit_at v i = of_bool (bit v i)"
  by (simp add: bit_at_div bit_iff_odd mod_2_eq_odd)

lemma bit_01: "b = 0 \<or> b = 1 \<Longrightarrow> bit b k \<longleftrightarrow> b = 1 \<and> k = 0" for b :: int
  by (auto simp add: bit_1_iff)

lemma shift_or: "b = 0 \<or> b = 1 \<Longrightarrow> push_bit 1 v OR b = 2 * v + b" for v b :: int
  by (auto simp add: or_one_eq)


lemma shift_or_mult: "b = 0 \<or> b = 1 \<Longrightarrow> v * 2 OR b = v * 2 + b" for v b :: int
  using shift_or [of b v] by (simp add: push_bit_eq_mult)

lemma upt_4: "[0..<4] = [0, 1, 2, 3]"
  by (simp add: upt_rec)

lemma upt_5: "[0..<5] = [0, 1, 2, 3, 4]"
  by (simp add: upt_rec)

lemma read_bits_4:
  assumes "\<And>i. i < 4 \<Longrightarrow> bits ! (k + i) = 0 \<or> bits ! (k + i) = 1"
  shows "read_bits bits k 4 = 8 * bits ! k + 4 * bits ! (k + 1) + 2 * bits ! (k + 2) + bits ! (k + 3)"
  using assms [of 0] assms [of 1] assms [of 2] assms [of 3]
  by (simp add: read_bits_def upt_4 shift_or_mult)

lemma read_bits_5:
  assumes "\<And>i. i < 5 \<Longrightarrow> bits ! (k + i) = 0 \<or> bits ! (k + i) = 1"
  shows "read_bits bits k 5 = 16 * bits ! k + 8 * bits ! (k + 1) + 4 * bits ! (k + 2)
           + 2 * bits ! (k + 3) + bits ! (k + 4)"
  using assms [of 0] assms [of 1] assms [of 2] assms [of 3] assms [of 4]
  by (simp add: read_bits_def upt_5 shift_or_mult)


lemma bit_at_0: "bit_at v 0 = v mod 2"
  by (simp add: bit_at_div)

lemma bit_at_Suc: "bit_at v (Suc i) = bit_at (v div 2) i"
  by (simp add: bit_at_div zdiv_zmult2_eq)

lemma bits_sum: "0 \<le> v \<Longrightarrow> v < 2 ^ n \<Longrightarrow> (\<Sum>i<n. 2 ^ i * bit_at v i) = v"
proof (induction n arbitrary: v)
  case 0
  then show ?case by simp
next
  case (Suc n)
  from Suc.prems have "0 \<le> v div 2" "v div 2 < 2 ^ n" by simp_all
  from Suc.IH [OF this] have "(\<Sum>i<n. 2 ^ i * bit_at (v div 2) i) = v div 2" .
  moreover have "(\<Sum>i<n. 2 ^ Suc i * bit_at v (Suc i)) = 2 * (\<Sum>i<n. 2 ^ i * bit_at (v div 2) i)"
    by (simp add: bit_at_Suc sum_distrib_left mult.assoc)
  ultimately have s: "(\<Sum>i<n. 2 ^ Suc i * bit_at v (Suc i)) = 2 * (v div 2)" by simp
  have "(\<Sum>i<Suc n. 2 ^ i * bit_at v i) = 2 ^ 0 * bit_at v 0 + (\<Sum>i<n. 2 ^ Suc i * bit_at v (Suc i))"
    by (rule sum.lessThan_Suc_shift)
  also have "\<dots> = v mod 2 + 2 * (v div 2)" unfolding s by (simp add: bit_at_0)
  also have "\<dots> = v" by simp
  finally show ?case .
qed

lemma bits4_value:
  "0 \<le> v \<Longrightarrow> v < 16 \<Longrightarrow> 8 * bit_at v 3 + 4 * bit_at v 2 + 2 * bit_at v 1 + bit_at v 0 = v"
  using bits_sum [of v 4] by (simp add: eval_nat_numeral)

lemma bits5_value:
  "0 \<le> v \<Longrightarrow> v < 32 \<Longrightarrow>
   16 * bit_at v 4 + 8 * bit_at v 3 + 4 * bit_at v 2 + 2 * bit_at v 1 + bit_at v 0 = v"
  using bits_sum [of v 5] by (simp add: eval_nat_numeral)

lemma or3_value:
  "a = 0 \<or> a = 1 \<Longrightarrow> b = 0 \<or> b = 1 \<Longrightarrow> c = 0 \<or> c = 1 \<Longrightarrow>
   (push_bit 2 a OR push_bit 1 b) OR c = 4 * a + 2 * b + c" for a b c :: int
  by (elim disjE) simp_all

lemma bits3_value:
  assumes "0 \<le> v" and "v < 8"
  shows "(push_bit 2 (bit_at v 2) OR push_bit 1 (bit_at v 1)) OR bit_at v 0 = v"
  using or3_value [OF bit_at_01 bit_at_01 bit_at_01, of v 2 v 1 v 0] bits_sum [of v 3] assms
  by (simp add: eval_nat_numeral)

lemma bits2_value:
  assumes "0 \<le> v" and "v < 4"
  shows "push_bit 1 (bit_at v 1) OR (v AND 1) = v"
proof -
  have "v AND 1 = bit_at v 0" by (simp add: bit_at_def)
  moreover have "push_bit 1 (bit_at v 1) OR bit_at v 0 = 2 * bit_at v 1 + bit_at v 0"
    by (rule shift_or) (rule bit_at_01)
  moreover have "2 * bit_at v 1 + bit_at v 0 = v"
    using bits_sum [of v 2] assms by (simp add: eval_nat_numeral)
  ultimately show ?thesis by simp
qed


lemma nth_concat_fixed:
  assumes "\<And>x. x \<in> set xs \<Longrightarrow> length (f x) = n"
  shows "k < length xs \<Longrightarrow> j < n \<Longrightarrow> concat (map f xs) ! (n * k + j) = f (xs ! k) ! j"
  using assms
proof (induction xs arbitrary: k)
  case Nil
  then show ?case by simp
next
  case (Cons x xs)
  have lx: "length (f x) = n" using Cons.prems(3) by simp
  show ?case
  proof (cases k)
    case 0
    with Cons.prems lx show ?thesis by (simp add: nth_append)
  next
    case (Suc k')
    with Cons.prems have "concat (map f xs) ! (n * k' + j) = f (xs ! k') ! j"
      by (intro Cons.IH) auto
    with Suc lx show ?thesis by (simp add: nth_append add.assoc)
  qed
qed

lemma length_concat_fixed:
  "(\<And>x. x \<in> set xs \<Longrightarrow> length (f x) = n) \<Longrightarrow> length (concat (map f xs)) = n * length xs"
  by (induction xs) simp_all

lemma pack_fold_bit:
  assumes "\<forall>b\<in>set bits. b = 0 \<or> b = 1"
  shows "bit (fold (\<lambda>j byte_val. if i + j < length bits
                          then byte_val OR push_bit (7 - j) (bits ! (i + j)) else byte_val)
                [0..<m] (0::int)) n
         \<longleftrightarrow> (\<exists>j<m. n = 7 - j \<and> i + j < length bits \<and> bits ! (i + j) = 1)"
proof (induction m)
  case 0
  then show ?case by simp
next
  case (Suc m)
  show ?case
  proof (cases "i + m < length bits")
    case True
    then have "bits ! (i + m) = 0 \<or> bits ! (i + m) = 1" using assms by simp
    then have "bit (bits ! (i + m)) k \<longleftrightarrow> bits ! (i + m) = 1 \<and> k = 0" for k
      by (rule bit_01)
    with True Suc show ?thesis
      by (auto simp add: bit_or_iff bit_push_bit_iff_int less_Suc_eq)
  next
    case False
    with Suc show ?thesis by (auto simp add: less_Suc_eq)
  qed
qed

lemma pack_byte_bit:
  assumes "\<forall>b\<in>set bits. b = 0 \<or> b = 1"
  shows "bit (pack_byte bits i) n \<longleftrightarrow> (\<exists>j<8. n = 7 - j \<and> i + j < length bits \<and> bits ! (i + j) = 1)"
  unfolding pack_byte_def by (rule pack_fold_bit [OF assms])

lemma pack_byte_range:
  assumes "\<forall>b\<in>set bits. b = 0 \<or> b = 1"
  shows "0 \<le> pack_byte bits i \<and> pack_byte bits i < 256"
proof -
  have "take_bit 8 (pack_byte bits i) = pack_byte bits i"
    by (rule bit_eqI) (auto simp add: bit_take_bit_iff pack_byte_bit [OF assms])
  then show ?thesis by (simp add: take_bit_int_eq_self_iff)
qed

lemma pack_byte_bit_at:
  assumes "\<forall>b\<in>set bits. b = 0 \<or> b = 1" and "j < 8"
  shows "bit_at (pack_byte bits i) (7 - j) = (if i + j < length bits then bits ! (i + j) else 0)"
proof -
  have inj: "j' = j" if "j' < 8" "7 - j = 7 - j'" for j'
    using that assms(2) by arith
  have "bit (pack_byte bits i) (7 - j) \<longleftrightarrow> i + j < length bits \<and> bits ! (i + j) = 1"
    unfolding pack_byte_bit [OF assms(1)] using assms(2) by (auto dest: inj)
  moreover have "bits ! (i + j) = 0 \<or> bits ! (i + j) = 1" if "i + j < length bits"
    using assms(1) that by simp
  ultimately show ?thesis by (auto simp add: bit_at_of_bool)
qed


lemma length_unpack_bits: "length (unpack_bits bs) = 8 * length bs"
  unfolding unpack_bits_def by (rule length_concat_fixed) simp

lemma unpack_bits_nth:
  assumes "k < length bs" and "j < 8"
  shows "unpack_bits bs ! (8 * k + j) = bit_at (bs ! k) (7 - j)"
proof -
  have "unpack_bits bs ! (8 * k + j) = map (\<lambda>j. bit_at (bs ! k) (7 - j)) [0..<8] ! j"
    unfolding unpack_bits_def using assms by (intro nth_concat_fixed) simp_all
  with assms(2) show ?thesis by simp
qed

lemma length_pack_bytes: "length (pack_bytes bits) = (length bits + 7) div 8"
  by (simp add: pack_bytes_def)

lemma unpack_pack_nth:
  assumes "\<forall>b\<in>set bits. b = 0 \<or> b = 1" and "p < length bits"
  shows "unpack_bits (pack_bytes bits) ! p = bits ! p"
proof -
  let ?k = "p div 8" and ?j = "p mod 8"
  have p: "p = 8 * ?k + ?j" by simp
  have k: "?k < length (pack_bytes bits)" using assms(2) by (simp add: length_pack_bytes)
  have j: "?j < 8" by simp
  have "unpack_bits (pack_bytes bits) ! (8 * ?k + ?j) = bit_at (pack_bytes bits ! ?k) (7 - ?j)"
    using k j by (rule unpack_bits_nth)
  also have "pack_bytes bits ! ?k = pack_byte bits (8 * ?k)"
    using k by (simp add: pack_bytes_def)
  also have "bit_at (pack_byte bits (8 * ?k)) (7 - ?j) = bits ! (8 * ?k + ?j)"
    using pack_byte_bit_at [OF assms(1) j, of "8 * ?k"] assms(2) by simp
  finally show ?thesis by simp
qed

lemma pack_bytes_range:
  assumes "\<forall>b\<in>set bits. b = 0 \<or> b = 1"
  shows "\<forall>b\<in>set (pack_bytes bits). 0 \<le> b \<and> b < 256"
  using pack_byte_range [OF assms] by (auto simp add: pack_bytes_def)

lemma b64_all: "list_all b64_ok [0..<64]"
  by code_simp


lemma b64_ok_range:
  assumes "0 \<le> v" and "v < 64"
  shows "b64_value (urlsafe_decode_translation (urlsafe_encode_translation (b64_char v))) = Some v"
    and "urlsafe_encode_translation (b64_char v) \<noteq> CHR ''=''"
    and "(of_char (urlsafe_encode_translation (b64_char v)) :: nat) < 128"
proof -
  from assms have "nat v \<in> set [0..<64]" by simp
  with b64_all have "b64_ok (nat v)" unfolding list_all_iff by blast
  with assms show "b64_value (urlsafe_decode_translation (urlsafe_encode_translation (b64_char v))) = Some v"
    and "urlsafe_encode_translation (b64_char v) \<noteq> CHR ''=''"
    and "(of_char (urlsafe_encode_translation (b64_char v)) :: nat) < 128"
    by (simp_all add: b64_ok_def Let_def)
qed

lemma sextets:
  fixes b0 b1 b2 :: int
  assumes "0 \<le> b0" "b0 < 256" "0 \<le> b1" "b1 < 256" "0 \<le> b2" "b2 < 256"
  shows "0 \<le> b0 div 4 \<and> b0 div 4 < 64"
    and "0 \<le> (b0 mod 4) * 16 + b1 div 16 \<and> (b0 mod 4) * 16 + b1 div 16 < 64"
    and "0 \<le> (b1 mod 16) * 4 + b2 div 64 \<and> (b1 mod 16) * 4 + b2 div 64 < 64"
    and "0 \<le> b2 mod 64 \<and> b2 mod 64 < 64"
    and "b0 div 4 * 4 + ((b0 mod 4) * 16 + b1 div 16) div 16 = b0"
    and "((b0 mod 4) * 16 + b1 div 16) mod 16 * 16 + ((b1 mod 16) * 4 + b2 div 64) div 4 = b1"
    and "((b1 mod 16) * 4 + b2 div 64) mod 4 * 64 + b2 mod 64 = b2"
proof -
  have d0: "0 \<le> b0 div 4" "b0 div 4 < 64" using assms by simp_all
  have m0: "0 \<le> b0 mod 4" "b0 mod 4 < 4" by simp_all
  have d1: "0 \<le> b1 div 16" "b1 div 16 < 16" using assms by simp_all
  have m1: "0 \<le> b1 mod 16" "b1 mod 16 < 16" by simp_all
  have d2: "0 \<le> b2 div 64" "b2 div 64 < 4" using assms by simp_all
  have m2: "0 \<le> b2 mod 64" "b2 mod 64 < 64" by simp_all
  show "0 \<le> b0 div 4 \<and> b0 div 4 < 64" using d0 by simp
  show "0 \<le> (b0 mod 4) * 16 + b1 div 16 \<and> (b0 mod 4) * 16 + b1 div 16 < 64"
    using m0 d1 by linarith
  show "0 \<le> (b1 mod 16) * 4 + b2 div 64 \<and> (b1 mod 16) * 4 + b2 div 64 < 64"
    using m1 d2 by linarith
  show "0 \<le> b2 mod 64 \<and> b2 mod 64 < 64" using m2 by simp
  have a: "((b0 mod 4) * 16 + b1 div 16) div 16 = b0 mod 4"
    using d1 by simp
  have b: "((b0 mod 4) * 16 + b1 div 16) mod 16 = b1 div 16"
    using d1 by simp
  have c: "((b1 mod 16) * 4 + b2 div 64) div 4 = b1 mod 16"
    using d2 by simp
  have d: "((b1 mod 16) * 4 + b2 div 64) mod 4 = b2 div 64"
    using d2 by simp
  show "b0 div 4 * 4 + ((b0 mod 4) * 16 + b1 div 16) div 16 = b0" unfolding a by simp
  show "((b0 mod 4) * 16 + b1 div 16) mod 16 * 16 + ((b1 mod 16) * 4 + b2 div 64) div 4 = b1"
    unfolding b c by simp
  show "((b1 mod 16) * 4 + b2 div 64) mod 4 * 64 + b2 mod 64 = b2" unfolding d by simp
qed


lemma a2b_step0:
  "ch \<noteq> CHR ''='' \<Longrightarrow> b64_value ch = Some v \<Longrightarrow>
   a2b_base64 (ch # rest) 0 l p = a2b_base64 rest 1 v 0"
  by simp

lemma a2b_step1:
  "ch \<noteq> CHR ''='' \<Longrightarrow> b64_value ch = Some v \<Longrightarrow>
   a2b_base64 (ch # rest) 1 l p = emit (l * 4 + v div 16) (a2b_base64 rest 2 (v mod 16) 0)"
  by simp

lemma a2b_step2:
  "ch \<noteq> CHR ''='' \<Longrightarrow> b64_value ch = Some v \<Longrightarrow>
   a2b_base64 (ch # rest) 2 l p = emit (l * 16 + v div 4) (a2b_base64 rest 3 (v mod 4) 0)"
  by simp

lemma a2b_step3:
  "ch \<noteq> CHR ''='' \<Longrightarrow> b64_value ch = Some v \<Longrightarrow>
   a2b_base64 (ch # rest) 3 l p = emit (l * 64 + v) (a2b_base64 rest 0 0 0)"
  by simp

lemma a2b_group:
  fixes b0 b1 b2 :: int
  assumes "0 \<le> b0" "b0 < 256" "0 \<le> b1" "b1 < 256" "0 \<le> b2" "b2 < 256"
  shows "a2b_base64 (map urlsafe_decode_translation
            (map urlsafe_encode_translation
               [b64_char (b0 div 4), b64_char ((b0 mod 4) * 16 + b1 div 16),
                b64_char ((b1 mod 16) * 4 + b2 div 64), b64_char (b2 mod 64)] @ tail)) 0 l p
         = emit b0 (emit b1 (emit b2 (a2b_base64 (map urlsafe_decode_translation tail) 0 0 0)))"
proof -
  note s = sextets [OF assms]
  have e: "urlsafe_decode_translation ch \<noteq> CHR ''=''" if "ch \<noteq> CHR ''=''" for ch
    using that by (simp add: urlsafe_decode_translation_def)
  have r: "urlsafe_decode_translation (urlsafe_encode_translation (b64_char v)) \<noteq> CHR ''=''"
    "b64_value (urlsafe_decode_translation (urlsafe_encode_translation (b64_char v))) = Some v"
    if "0 \<le> v \<and> v < 64" for v
    using b64_ok_range [of v] that e by simp_all
  show ?thesis
    unfolding list.map map_append append_Cons append_Nil
      a2b_step0 [OF r [OF s(1)]] a2b_step1 [OF r [OF s(2)]] a2b_step2 [OF r [OF s(3)]]
      a2b_step3 [OF r [OF s(4)]] s(5-7) ..
qed


lemma dvd3_Suc: "3 dvd length (b0 # b1 # b2 # rest) \<longleftrightarrow> 3 dvd length rest"
proof -
  have "length (b0 # b1 # b2 # rest) = length rest + 3" by simp
  then show ?thesis by (simp only: dvd_add_triv_right_iff)
qed

lemma emit_Inr: "emit b (Inr bs) = Inr (b # bs)"
  by (simp add: emit_def)

lemma urlsafe_b64encode_Cons3:
  "urlsafe_b64encode (b0 # b1 # b2 # rest) =
      map urlsafe_encode_translation
        [b64_char (b0 div 4), b64_char ((b0 mod 4) * 16 + b1 div 16),
         b64_char ((b1 mod 16) * 4 + b2 div 64), b64_char (b2 mod 64)] @ urlsafe_b64encode rest"
  by (simp add: urlsafe_b64encode_def)

lemma b64_decode_encode:
  "\<forall>b\<in>set bs. 0 \<le> b \<and> b < 256 \<Longrightarrow> 3 dvd length bs \<Longrightarrow>
   a2b_base64 (map urlsafe_decode_translation (urlsafe_b64encode bs)) 0 0 0 = Inr bs"
proof (induction bs rule: b64encode.induct)
  case (1 b0 b1 b2 rest)
  from "1.prems" have rng: "0 \<le> b0" "b0 < 256" "0 \<le> b1" "b1 < 256" "0 \<le> b2" "b2 < 256"
    and rest: "\<forall>b\<in>set rest. 0 \<le> b \<and> b < 256" "3 dvd length rest"
    by (simp_all only: dvd3_Suc) simp_all
  show ?case
    unfolding urlsafe_b64encode_Cons3 a2b_group [OF rng] "1.IH" [OF rest] emit_Inr ..
next
  case (2 b0 b1)
  from "2.prems" have "3 \<le> length [b0, b1]" by (intro dvd_imp_le) simp_all
  then have False by simp
  then show ?case ..
next
  case (3 b0)
  from "3.prems" have "3 \<le> length [b0]" by (intro dvd_imp_le) simp_all
  then have False by simp
  then show ?case ..
next
  case 4
  show ?case by (simp add: urlsafe_b64encode_def)
qed

lemma b64_encode_chars:
  "\<forall>b\<in>set bs. 0 \<le> b \<and> b < 256 \<Longrightarrow> 3 dvd length bs \<Longrightarrow>
   \<forall>ch\<in>set (urlsafe_b64encode bs). ch \<noteq> CHR ''='' \<and> (of_char ch :: nat) < 128"
proof (induction bs rule: b64encode.induct)
  case (1 b0 b1 b2 rest)
  from "1.prems" have rng: "0 \<le> b0" "b0 < 256" "0 \<le> b1" "b1 < 256" "0 \<le> b2" "b2 < 256"
    and rest: "\<forall>b\<in>set rest. 0 \<le> b \<and> b < 256" "3 dvd length rest"
    by (simp_all only: dvd3_Suc) simp_all
  note s = sextets [OF rng]
  have ok: "urlsafe_encode_translation (b64_char v) \<noteq> CHR ''='' \<and>
      (of_char (urlsafe_encode_translation (b64_char v)) :: nat) < 128" if "0 \<le> v \<and> v < 64" for v
    using b64_ok_range(2,3) [of v] that by simp
  show ?case
    unfolding urlsafe_b64encode_Cons3
    using ok [OF s(1)] ok [OF s(2)] ok [OF s(3)] ok [OF s(4)] "1.IH" [OF rest]
    by simp
next
  case (2 b0 b1)
  from "2.prems" have "3 \<le> length [b0, b1]" by (intro dvd_imp_le) simp_all
  then have False by simp
  then show ?case ..
next
  case (3 b0)
  from "3.prems" have "3 \<le> length [b0]" by (intro dvd_imp_le) simp_all
  then have False by simp
  then show ?case ..
next
  case 4
  show ?case by (simp add: urlsafe_b64encode_def)
qed

lemma b64_encode_length:
  "3 dvd length bs \<Longrightarrow> length (urlsafe_b64encode bs) = 4 * (length bs div 3)"
proof (induction bs rule: b64encode.induct)
  case (1 b0 b1 b2 rest)
  from "1.prems" have r: "3 dvd length rest" by (simp only: dvd3_Suc)
  then obtain k where k: "length rest = 3 * k" by (auto simp add: dvd_def)
  from "1.IH" [OF r] k show ?case unfolding urlsafe_b64encode_Cons3 by simp
next
  case (2 b0 b1)
  from "2.prems" have "3 \<le> length [b0, b1]" by (intro dvd_imp_le) simp_all
  then have False by simp
  then show ?case ..
next
  case (3 b0)
  from "3.prems" have "3 \<le> length [b0]" by (intro dvd_imp_le) simp_all
  then have False by simp
  then show ?case ..
next
  case 4
  show ?case by (simp add: urlsafe_b64encode_def)
qed

lemma dropWhile_none: "\<forall>x\<in>set xs. \<not> P x \<Longrightarrow> dropWhile P xs = xs"
  by (cases xs) simp_all

lemma rstrip_eq_id: "CHR ''='' \<notin> set s \<Longrightarrow> rstrip_eq s = s"
proof -
  assume "CHR ''='' \<notin> set s"
  then have "\<forall>x\<in>set (rev s). \<not> x = CHR ''=''" by auto
  then have "dropWhile (\<lambda>ch. ch = CHR ''='') (rev s) = rev s" by (rule dropWhile_none)
  then show ?thesis by (simp add: rstrip_eq_def)
qed

lemma decode_encode_bytes:
  assumes "\<forall>b\<in>set bs. 0 \<le> b \<and> b < 256" and "3 dvd length bs"
  shows "urlsafe_b64decode
           (rstrip_eq (urlsafe_b64encode bs) @
            replicate ((4 - length (rstrip_eq (urlsafe_b64encode bs)) mod 4) mod 4) (CHR ''=''))
         = Inr bs"
proof -
  note ch = b64_encode_chars [OF assms]
  from ch have id: "rstrip_eq (urlsafe_b64encode bs) = urlsafe_b64encode bs"
    by (intro rstrip_eq_id) blast
  from ch have na: "\<not> list_ex (\<lambda>ch. of_char ch \<ge> (128 :: nat)) (urlsafe_b64encode bs)"
    unfolding list_ex_iff by (meson not_le)
  have pad: "(4 - length (urlsafe_b64encode bs) mod 4) mod 4 = 0"
    unfolding b64_encode_length [OF assms(2)] by simp
  show ?thesis
    unfolding id pad urlsafe_b64decode_def
    using na b64_decode_encode [OF assms] by (simp del: a2b_base64.simps)
qed

lemma index_of_nth: "v \<in> set xs \<Longrightarrow> index_of v xs < length xs \<and> xs ! index_of v xs = v"
  by (induction xs) auto

lemma length_cell_bits: "length (cell_bits v) = 4"
  by (simp add: cell_bits_def Let_def)

lemma cell_bits_nth:
  "cell_bits v = [bit_at (min 15 (max 0 v)) 3, bit_at (min 15 (max 0 v)) 2,
                  bit_at (min 15 (max 0 v)) 1, bit_at (min 15 (max 0 v)) 0]"
  by (simp add: cell_bits_def Let_def)

lemma row_bits_length: "length (concat (map cell_bits row)) = 4 * length row"
  by (rule length_concat_fixed) (rule length_cell_bits)

lemma board_bits_length:
  assumes "valid_board board"
  shows "length (concat (map (\<lambda>row. concat (map cell_bits row)) board)) = 800"
proof -
  have "length (concat (map (\<lambda>row. concat (map cell_bits row)) board)) = 40 * length board"
    by (rule length_concat_fixed) (use assms in \<open>simp add: row_bits_length valid_board_iff\<close>)
  with assms show ?thesis by (simp add: valid_board_iff)
qed

lemma board_bits_nth:
  assumes "valid_board board" and "r < 20" and "c < 10" and "i < 4"
  shows "concat (map (\<lambda>row. concat (map cell_bits row)) board) ! (4 * (r * 10 + c) + i)
         = cell_bits (board ! r ! c) ! i"
proof -
  from assms have r: "r < length board" and c: "c < length (board ! r)"
    by (simp_all add: valid_board_iff)
  have "concat (map (\<lambda>row. concat (map cell_bits row)) board) ! (40 * r + (4 * c + i))
      = concat (map cell_bits (board ! r)) ! (4 * c + i)"
    using assms r
    by (intro nth_concat_fixed) (simp_all add: row_bits_length valid_board_iff)
  also have "\<dots> = cell_bits (board ! r ! c) ! i"
    using c assms(4) by (intro nth_concat_fixed) (simp_all add: length_cell_bits)
  finally show ?thesis by (simp add: algebra_simps)
qed


lemma encode_bits_split:
  "encode_bits board name rot px py =
     concat (map (\<lambda>row. concat (map cell_bits row)) board) @
     [bit_at (if name \<in> set PIECE_NAMES then int (index_of name PIECE_NAMES) else 0) 2,
      bit_at (if name \<in> set PIECE_NAMES then int (index_of name PIECE_NAMES) else 0) 1,
      bit_at (if name \<in> set PIECE_NAMES then int (index_of name PIECE_NAMES) else 0) 0,
      bit_at (rot mod 4) 1, bit_at (rot mod 4) 0,
      bit_at (max 0 (min 31 (px + 4))) 4, bit_at (max 0 (min 31 (px + 4))) 3,
      bit_at (max 0 (min 31 (px + 4))) 2, bit_at (max 0 (min 31 (px + 4))) 1,
      bit_at (max 0 (min 31 (px + 4))) 0,
      bit_at (max 0 (min 31 (py + 4))) 4, bit_at (max 0 (min 31 (py + 4))) 3,
      bit_at (max 0 (min 31 (py + 4))) 2, bit_at (max 0 (min 31 (py + 4))) 1,
      bit_at (max 0 (min 31 (py + 4))) 0]"
  by (simp add: encode_bits_def Let_def bit_at_def)

lemma encode_bits_length:
  "valid_board board \<Longrightarrow> length (encode_bits board name rot px py) = 815"
  by (simp add: encode_bits_split board_bits_length)

lemma encode_bits_01:
  "\<forall>b\<in>set (encode_bits board name rot px py). b = 0 \<or> b = 1"
  using bit_at_01 by (auto simp add: encode_bits_split cell_bits_nth)

lemma encode_bits_tail:
  assumes "valid_board board" and "i < 15"
  shows "encode_bits board name rot px py ! (800 + i) =
     [bit_at (if name \<in> set PIECE_NAMES then int (index_of name PIECE_NAMES) else 0) 2,
      bit_at (if name \<in> set PIECE_NAMES then int (index_of name PIECE_NAMES) else 0) 1,
      bit_at (if name \<in> set PIECE_NAMES then int (index_of name PIECE_NAMES) else 0) 0,
      bit_at (rot mod 4) 1, bit_at (rot mod 4) 0,
      bit_at (max 0 (min 31 (px + 4))) 4, bit_at (max 0 (min 31 (px + 4))) 3,
      bit_at (max 0 (min 31 (px + 4))) 2, bit_at (max 0 (min 31 (px + 4))) 1,
      bit_at (max 0 (min 31 (px + 4))) 0,
      bit_at (max 0 (min 31 (py + 4))) 4, bit_at (max 0 (min 31 (py + 4))) 3,
      bit_at (max 0 (min 31 (py + 4))) 2, bit_at (max 0 (min 31 (py + 4))) 1,
      bit_at (max 0 (min 31 (py + 4))) 0] ! i"
  unfolding encode_bits_split
  using board_bits_length [OF assms(1)] by (simp add: nth_append)

lemma encode_bits_cell:
  assumes "valid_board board" and "r < 20" and "c < 10" and "i < 4"
  shows "encode_bits board name rot px py ! (4 * (r * 10 + c) + i) = cell_bits (board ! r ! c) ! i"
proof -
  have "4 * (r * 10 + c) + i < 800" using assms by simp
  then show ?thesis
    unfolding encode_bits_split
    using board_bits_length [OF assms(1)] board_bits_nth [OF assms]
    by (simp add: nth_append)
qed


lemma piece_names_length: "length PIECE_NAMES = 7"
  by (simp add: PIECE_NAMES_def)

lemma decode_bits_encode_bits:
  assumes vb: "valid_board board" and nm: "name \<in> set PIECE_NAMES"
    and rot: "0 \<le> rot" "rot \<le> 3" and px: "-4 \<le> px" "px \<le> 27" and py: "-4 \<le> py" "py \<le> 27"
    and len: "815 \<le> length bits"
    and agree: "\<And>p. p < 815 \<Longrightarrow> bits ! p = encode_bits board name rot px py ! p"
  shows "\<exists>d. decode_bits bits = Inr (Some d) \<and> d_board d = board \<and> d_piece_name d = name \<and>
           d_rotation d = rot \<and> d_piece_x d = px \<and> d_piece_y d = py"
proof -
  let ?e = "encode_bits board name rot px py"
  let ?idx = "int (index_of name PIECE_NAMES)"
  have b01: "bits ! p = 0 \<or> bits ! p = 1" if "p < 815" for p
  proof -
    have "?e ! p \<in> set ?e" using that encode_bits_length [OF vb] by simp
    with encode_bits_01 agree [OF that] show ?thesis by metis
  qed
  have tl: "bits ! (800 + i) =
     [bit_at ?idx 2, bit_at ?idx 1, bit_at ?idx 0, bit_at rot 1, bit_at rot 0,
      bit_at (px + 4) 4, bit_at (px + 4) 3, bit_at (px + 4) 2, bit_at (px + 4) 1, bit_at (px + 4) 0,
      bit_at (py + 4) 4, bit_at (py + 4) 3, bit_at (py + 4) 2, bit_at (py + 4) 1, bit_at (py + 4) 0] ! i"
    if "i < 15" for i
  proof -
    have "rot mod 4 = rot" "max 0 (min 31 (px + 4)) = px + 4" "max 0 (min 31 (py + 4)) = py + 4"
      using rot px py by simp_all
    with encode_bits_tail [OF vb that, of name rot px py] agree [of "800 + i"] that nm
    show ?thesis by simp
  qed
  have idx: "0 \<le> ?idx" "?idx < 7" "PIECE_NAMES ! index_of name PIECE_NAMES = name"
    using index_of_nth [OF nm] by (simp_all add: piece_names_length)
  have pidx: "(push_bit 2 (bits ! 800) OR push_bit 1 (bits ! 801)) OR bits ! 802 = ?idx"
    using tl [of 0] tl [of 1] tl [of 2] bits3_value [of ?idx] idx by simp
  have prot: "push_bit 1 (bits ! 803) OR bits ! 804 = rot"
    using tl [of 3] tl [of 4] bits2_value [of rot] rot by (simp add: bit_at_def)
  have x01: "bits ! (805 + i) = 0 \<or> bits ! (805 + i) = 1" if "i < 5" for i
    using b01 [of "805 + i"] that by simp
  have y01: "bits ! (810 + i) = 0 \<or> bits ! (810 + i) = 1" if "i < 5" for i
    using b01 [of "810 + i"] that by simp
  have rx: "read_bits bits 805 5 = 16 * bits ! 805 + 8 * bits ! 806 + 4 * bits ! 807
      + 2 * bits ! 808 + bits ! 809"
    using read_bits_5 [of bits 805, OF x01] by simp
  have ry: "read_bits bits 810 5 = 16 * bits ! 810 + 8 * bits ! 811 + 4 * bits ! 812
      + 2 * bits ! 813 + bits ! 814"
    using read_bits_5 [of bits 810, OF y01] by simp
  have pxv: "read_bits bits 805 5 = px + 4"
    unfolding rx
    using tl [of 5] tl [of 6] tl [of 7] tl [of 8] tl [of 9] bits5_value [of "px + 4"] px by simp
  have pyv: "read_bits bits 810 5 = py + 4"
    unfolding ry
    using tl [of 10] tl [of 11] tl [of 12] tl [of 13] tl [of 14] bits5_value [of "py + 4"] py by simp
  have cell: "read_bits bits (4 * (r * 10 + c)) 4 = board ! r ! c" if "r < 20" "c < 10" for r c
  proof -
    let ?k = "4 * (r * 10 + c)"
    have in_range: "?k + i < 815" if "i < 4" for i using that \<open>r < 20\<close> \<open>c < 10\<close> by simp
    have c01: "bits ! (?k + i) = 0 \<or> bits ! (?k + i) = 1" if "i < 4" for i
      using b01 [OF in_range [OF that]] .
    have v: "bits ! (?k + i) = cell_bits (board ! r ! c) ! i" if "i < 4" for i
      using agree [OF in_range [OF that]] encode_bits_cell [OF vb \<open>r < 20\<close> \<open>c < 10\<close> that] by simp
    from vb that have "board ! r \<in> set board" "length (board ! r) = 10"
      by (simp_all add: valid_board_iff)
    with vb that have "board ! r ! c \<in> set (board ! r)" by simp
    with vb \<open>board ! r \<in> set board\<close> have rng: "0 \<le> board ! r ! c" "board ! r ! c \<le> 8"
      by (auto simp add: valid_board_iff)
    then have cv: "min 15 (max 0 (board ! r ! c)) = board ! r ! c" by simp
    have "read_bits bits ?k 4 = 8 * bits ! ?k + 4 * bits ! (?k + 1) + 2 * bits ! (?k + 2)
        + bits ! (?k + 3)"
      by (rule read_bits_4) (rule c01)
    also have "\<dots> = board ! r ! c"
      using v [of 0] v [of 1] v [of 2] v [of 3] bits4_value [of "board ! r ! c"] rng
      by (simp add: cell_bits_nth cv)
    finally show ?thesis .
  qed
  have brd: "map (\<lambda>r. map (\<lambda>c. read_bits bits (4 * (r * 10 + c)) 4) [0..<10]) [0..<20] = board"
  proof (rule nth_equalityI)
    show "length (map (\<lambda>r. map (\<lambda>c. read_bits bits (4 * (r * 10 + c)) 4) [0..<10]) [0..<20])
        = length board" using vb by (simp add: valid_board_iff)
  next
    fix r assume "r < length (map (\<lambda>r. map (\<lambda>c. read_bits bits (4 * (r * 10 + c)) 4) [0..<10]) [0..<20])"
    then have r: "r < 20" by simp
    with vb have lr: "length (board ! r) = 10" by (simp add: valid_board_iff)
    have cell': "read_bits bits (40 * r + 4 * c) 4 = board ! r ! c" if "c < 10" for c
      using cell [OF r that] by simp
    have "map (\<lambda>c. read_bits bits (4 * (r * 10 + c)) 4) [0..<10] = board ! r"
      by (rule nth_equalityI) (simp_all add: lr cell')
    with r show "map (\<lambda>r. map (\<lambda>c. read_bits bits (4 * (r * 10 + c)) 4) [0..<10]) [0..<20] ! r
        = board ! r" by simp
  qed
  from piece_facts [OF nm] obtain sh where sh: "tetromino name = Inr sh" by blast
  have nl: "\<not> length bits < 815" using len by simp
  show ?thesis
    unfolding decode_bits_def
    using nl brd pidx prot pxv pyv idx sh
    by (simp add: Let_def WIDTH_def HEIGHT_def piece_names_length bind_err_def)
qed


text \<open>
  Claim C6: for every board of 20 rows by 10 columns with every cell in 0..8, every
  piece name among the seven, every rotation in 0..3 and every \<open>x\<close> and \<open>y\<close> in
  \<open>[-4, 27]\<close>, decoding the encoded state succeeds and returns the same board, piece
  name, rotation, \<open>x\<close> and \<open>y\<close>.
\<close>

theorem codec_round_trip:
  assumes "valid_board board" and "name \<in> set PIECE_NAMES"
    and "0 \<le> rot" and "rot \<le> 3" and "-4 \<le> px" and "px \<le> 27" and "-4 \<le> py" and "py \<le> 27"
  shows "\<exists>d. decode_game_state (encode_game_state board name rot px py) = Inr (Some d) \<and>
           d_board d = board \<and> d_piece_name d = name \<and> d_rotation d = rot \<and>
           d_piece_x d = px \<and> d_piece_y d = py"
proof -
  let ?bits = "encode_bits board name rot px py"
  let ?bytes = "pack_bytes ?bits"
  note b01 = encode_bits_01 [of board name rot px py]
  have bl: "length ?bits = 815" by (rule encode_bits_length [OF assms(1)])
  have rng: "\<forall>b\<in>set ?bytes. 0 \<le> b \<and> b < 256" by (rule pack_bytes_range [OF b01])
  have l: "length ?bytes = 102" by (simp add: length_pack_bytes bl)
  have "(102::nat) = 3 * 34" by simp
  then have d3: "3 dvd length ?bytes" unfolding l by (rule dvdI)
  have eq: "decode_game_state (encode_game_state board name rot px py) = decode_bits (unpack_bits ?bytes)"
    unfolding decode_game_state_def encode_game_state_def Let_def decode_encode_bytes [OF rng d3]
    by simp
  have len: "815 \<le> length (unpack_bits ?bytes)" by (simp add: length_unpack_bits l)
  have agree: "unpack_bits ?bytes ! p = ?bits ! p" if "p < 815" for p
    using unpack_pack_nth [OF b01, of p] that bl by simp
  from decode_bits_encode_bits [OF assms len agree] show ?thesis unfolding eq .
qed

theorem codec_round_trip_witness:
  "valid_board new_board \<and> ''T'' \<in> set PIECE_NAMES
   \<and> (\<exists>d. decode_game_state (encode_game_state new_board ''T'' 1 3 (-1)) = Inr (Some d) \<and>
           d_board d = new_board \<and> d_piece_name d = ''T'' \<and> d_rotation d = 1 \<and>
           d_piece_x d = 3 \<and> d_piece_y d = -1)"
proof -
  have v: "valid_board new_board" by (rule valid_new_board)
  have n: "''T'' \<in> set PIECE_NAMES" by (simp add: PIECE_NAMES_def)
  from codec_round_trip [OF v n, of 1 3 "-1"] v n show ?thesis by simp
qed

end
